theory Spec2Isabelle
  imports Main "HOL-Library.Word" "HOL-Library.Sublist"
begin

section \<open>Go library functions used by the client\<close>

text \<open>
  Go strings and byte slices are modelled as \<open>string\<close>, a list of bytes: \<open>len\<close> is
  \<open>length\<close>, the conversion \<open>string(output)\<close> is the identity. A \<open>time.Duration\<close> is a
  signed 64-bit count of nanoseconds. An \<open>error\<close> built by \<open>fmt.Errorf\<close> is the
  message it carries.
\<close>

subsection \<open>strings.TrimSpace\<close>

text \<open>
  \<open>strings.TrimSpace\<close> removes the leading and the trailing runes for which
  \<open>unicode.IsSpace\<close> holds. On bytes: a string starts (ends) with such a rune exactly
  when it starts (ends) with the UTF-8 encoding of one, so the model strips these
  encodings. \<open>spaceRunes\<close> lists them: tab, line feed, vertical tab, form feed,
  carriage return, space, U+0085, U+00A0, U+1680, U+2000 to U+200A, U+2028, U+2029,
  U+202F, U+205F and U+3000.
\<close>

definition newline :: char where
  "newline = CHR 0x0A"

definition spaceRunes :: "string list" where
  "spaceRunes =
     [[CHR 0x09], [CHR 0x0A], [CHR 0x0B], [CHR 0x0C], [CHR 0x0D], [CHR 0x20],
      [CHR 0xC2, CHR 0x85], [CHR 0xC2, CHR 0xA0],
      [CHR 0xE1, CHR 0x9A, CHR 0x80],
      [CHR 0xE2, CHR 0x80, CHR 0x80], [CHR 0xE2, CHR 0x80, CHR 0x81],
      [CHR 0xE2, CHR 0x80, CHR 0x82], [CHR 0xE2, CHR 0x80, CHR 0x83],
      [CHR 0xE2, CHR 0x80, CHR 0x84], [CHR 0xE2, CHR 0x80, CHR 0x85],
      [CHR 0xE2, CHR 0x80, CHR 0x86], [CHR 0xE2, CHR 0x80, CHR 0x87],
      [CHR 0xE2, CHR 0x80, CHR 0x88], [CHR 0xE2, CHR 0x80, CHR 0x89],
      [CHR 0xE2, CHR 0x80, CHR 0x8A],
      [CHR 0xE2, CHR 0x80, CHR 0xA8], [CHR 0xE2, CHR 0x80, CHR 0xA9],
      [CHR 0xE2, CHR 0x80, CHR 0xAF],
      [CHR 0xE2, CHR 0x81, CHR 0x9F],
      [CHR 0xE3, CHR 0x80, CHR 0x80]]"

function trimLeftSpace :: "string \<Rightarrow> string" where
  "trimLeftSpace s =
     (case find (\<lambda>w. prefix w s) spaceRunes of
        None \<Rightarrow> s
      | Some w \<Rightarrow> trimLeftSpace (drop (length w) s))"
  by pat_completeness auto
termination
proof (relation "measure length")
  fix s w assume "find (\<lambda>w. prefix w s) spaceRunes = Some w"
  then have "w \<in> set spaceRunes" "prefix w s"
    by (auto simp: find_Some_iff)
  then have "w \<noteq> []" "length w \<le> length s"
    by (auto simp: spaceRunes_def prefix_length_le)
  then show "(drop (length w) s, s) \<in> measure length"
    by (cases w) auto
qed simp

function trimRightSpace :: "string \<Rightarrow> string" where
  "trimRightSpace s =
     (case find (\<lambda>w. suffix w s) spaceRunes of
        None \<Rightarrow> s
      | Some w \<Rightarrow> trimRightSpace (take (length s - length w) s))"
  by pat_completeness auto
termination
proof (relation "measure length")
  fix s w assume "find (\<lambda>w. suffix w s) spaceRunes = Some w"
  then have "w \<in> set spaceRunes" "suffix w s"
    by (auto simp: find_Some_iff)
  then have "w \<noteq> []" "length w \<le> length s"
    by (auto simp: spaceRunes_def suffix_length_le)
  then show "(take (length s - length w) s, s) \<in> measure length"
    by (cases w) auto
qed simp

declare trimLeftSpace.simps [simp del] trimRightSpace.simps [simp del]

definition TrimSpace :: "string \<Rightarrow> string" where
  "TrimSpace s = trimRightSpace (trimLeftSpace s)"

subsection \<open>strings.Split, strings.Join, strings.Contains, strings.ToLower\<close>

text \<open>
  \<open>Split\<close> is \<open>strings.Split\<close> with a one-byte separator: the loop cuts the text at
  each separator and ends with what remains. \<open>Contains\<close> tests for a contiguous
  substring.
\<close>

function Split :: "string \<Rightarrow> char \<Rightarrow> string list" where
  "Split s sep =
     (case dropWhile (\<lambda>c. c \<noteq> sep) s of
        [] \<Rightarrow> [s]
      | _ # rest \<Rightarrow> takeWhile (\<lambda>c. c \<noteq> sep) s # Split rest sep)"
  by pat_completeness auto
termination
proof (relation "measure (\<lambda>(s, sep). length s)")
  fix s :: string and sep x rest
  assume "dropWhile (\<lambda>c. c \<noteq> sep) s = x # rest"
  then have "length rest < length (dropWhile (\<lambda>c. c \<noteq> sep) s)" by simp
  also have "\<dots> \<le> length s" by (rule length_dropWhile_le)
  finally show "((rest, sep), (s, sep)) \<in> measure (\<lambda>(s, sep). length s)" by simp
qed simp

declare Split.simps [simp del]

fun Join :: "string list \<Rightarrow> string \<Rightarrow> string" where
  "Join [] sep = []"
| "Join [e] sep = e"
| "Join (e # e' # es) sep = e @ sep @ Join (e' # es) sep"

fun Contains :: "string \<Rightarrow> string \<Rightarrow> bool" where
  "Contains [] substr = (substr = [])"
| "Contains (c # cs) substr = (prefix substr (c # cs) \<or> Contains cs substr)"

text \<open>
  \<open>strings.ToLower\<close> maps the bytes \<open>A\<close> to \<open>Z\<close> to \<open>a\<close> to \<open>z\<close>. On text that is not
  ASCII, Go lowers every rune by the Unicode tables; the model treats the text as bytes and
  leaves the bytes from 0x80 on as they are.
\<close>

definition toLowerByte :: "char \<Rightarrow> char" where
  "toLowerByte c =
     (if 65 \<le> (of_char c :: nat) \<and> (of_char c :: nat) \<le> 90
      then char_of ((of_char c :: nat) + 32) else c)"

definition ToLower :: "string \<Rightarrow> string" where
  "ToLower s = map toLowerByte s"

subsection \<open>regexp\<close>

text \<open>
  Go's \<open>regexp\<close> returns the match that begins leftmost and, among those, the one a
  backtracking search finds first. \<open>matches\<close> is that search: from a cursor (the byte
  before the position, for \<^verbatim>\<open>\b\<close>, and the text from the position on) it lists every
  cursor at which a match of the expression can end, in the order backtracking tries
  them; the head of the list is the match chosen. A repetition is greedy: one more
  iteration is tried before stopping.
\<close>

type_synonym cursor = "char option \<times> string"

datatype regex =
    Lit string
  | Class "char \<Rightarrow> bool"
  | Seq regex regex
  | Alt regex regex
  | Star regex
  | WordBoundary

definition wordChar :: "char \<Rightarrow> bool" where
  "wordChar c =
     (let n = (of_char c :: nat)
      in (48 \<le> n \<and> n \<le> 57) \<or> (65 \<le> n \<and> n \<le> 90) \<or> n = 95 \<or> (97 \<le> n \<and> n \<le> 122))"

definition wordBefore :: "char option \<Rightarrow> bool" where
  "wordBefore p = (case p of None \<Rightarrow> False | Some c \<Rightarrow> wordChar c)"

definition wordAfter :: "string \<Rightarrow> bool" where
  "wordAfter s = (case s of [] \<Rightarrow> False | c # _ \<Rightarrow> wordChar c)"

fun matches :: "regex \<Rightarrow> cursor \<Rightarrow> cursor list" where
  "matches (Lit w) (p, s) =
     (if prefix w s then [(if w = [] then p else Some (last w), drop (length w) s)] else [])"
| "matches (Class P) (p, s) =
     (case s of [] \<Rightarrow> [] | c # cs \<Rightarrow> if P c then [(Some c, cs)] else [])"
| "matches (Seq r1 r2) x = concat (map (matches r2) (matches r1 x))"
| "matches (Alt r1 r2) x = matches r1 x @ matches r2 x"
| "matches (Star r) x =
     concat (map (matches (Star r))
       (filter (\<lambda>y. length (snd y) < length (snd x)) (matches r x))) @ [x]"
| "matches WordBoundary (p, s) = (if wordBefore p \<noteq> wordAfter s then [(p, s)] else [])"

declare matches.simps(5) [simp del]

definition Plus :: "regex \<Rightarrow> regex" where
  "Plus r = Seq r (Star r)"

fun alts :: "string list \<Rightarrow> regex" where
  "alts [] = Class (\<lambda>c. False)"
| "alts [e] = Lit e"
| "alts (e # es) = Alt (Lit e) (alts es)"

text \<open>
  \<open>ReplaceAllStringFunc\<close> goes through the text from left to right. Where a match
  begins it appends the replacement of the matched text and goes on after the match;
  elsewhere it copies one byte. Go treats a match of the empty string apart; the pattern
  of this package matches at least two bytes, so the model copies a byte there.
\<close>

function replaceFrom :: "regex \<Rightarrow> (string \<Rightarrow> string) \<Rightarrow> cursor \<Rightarrow> string" where
  "replaceFrom re repl (p, s) =
     (case matches re (p, s) of
        (p', s') # _ \<Rightarrow>
          if length s' < length s
          then repl (take (length s - length s') s) @ replaceFrom re repl (p', s')
          else (case s of [] \<Rightarrow> [] | c # cs \<Rightarrow> c # replaceFrom re repl (Some c, cs))
      | [] \<Rightarrow> (case s of [] \<Rightarrow> [] | c # cs \<Rightarrow> c # replaceFrom re repl (Some c, cs)))"
  by pat_completeness auto
termination
  by (relation "measure (\<lambda>(re, repl, p, s). length s)") auto

declare replaceFrom.simps [simp del]

definition ReplaceAllStringFunc :: "regex \<Rightarrow> string \<Rightarrow> (string \<Rightarrow> string) \<Rightarrow> string" where
  "ReplaceAllStringFunc re src repl = replaceFrom re repl (None, src)"

subsection \<open>path/filepath on Unix\<close>

text \<open>
  \<open>filepath.Clean\<close> works through the elements of a path between separators, keeping
  the elements written so far: an empty element and \<open>.\<close> are skipped, \<open>..\<close> removes
  the last element kept, or is kept itself at the start of a path that is not rooted.
  \<open>cleanStep\<close> holds the elements kept, the last one first. \<open>filepath.Join\<close> joins the
  elements from the first non-empty one on and cleans the result.
\<close>

definition IsAbs :: "string \<Rightarrow> bool" where
  "IsAbs path = prefix ''/'' path"

definition cleanStep :: "bool \<Rightarrow> string list \<Rightarrow> string \<Rightarrow> string list" where
  "cleanStep rooted out elem =
     (if elem = [] \<or> elem = ''.'' then out
      else if elem = ''..'' then
        (case out of
           [] \<Rightarrow> if rooted then [] else [''..'']
         | e # es \<Rightarrow> if e = ''..'' then ''..'' # e # es else es)
      else elem # out)"

definition Clean :: "string \<Rightarrow> string" where
  "Clean path =
     (if path = [] then ''.''
      else let rooted = (hd path = CHR ''/'');
               out = foldl (cleanStep rooted) [] (Split path (CHR ''/''))
           in if rooted then ''/'' @ Join (rev out) ''/''
              else if out = [] then ''.'' else Join (rev out) ''/'')"

definition filepathJoin :: "string list \<Rightarrow> string" where
  "filepathJoin elem =
     (case dropWhile (\<lambda>e. e = []) elem of
        [] \<Rightarrow> []
      | es \<Rightarrow> Clean (Join es ''/''))"

section \<open>The Gemini command-line wrapper (client.go)\<close>

subsection \<open>Constants\<close>

type_synonym Duration = "64 word"

datatype error = Errorf string

definition GeminiCommand :: string where
  "GeminiCommand = ''gemini''"

definition GeminiPromptFlag :: string where
  "GeminiPromptFlag = ''-p''"

definition GeminiModelFlag :: string where
  "GeminiModelFlag = ''-m''"

definition Second :: Duration where
  "Second = 1000000000"

definition DefaultTimeout :: Duration where
  "DefaultTimeout = 30 * Second"

definition DefaultModel :: string where
  "DefaultModel = ''gemini-2.5-flash''"

definition ErrEmptyPrompt :: string where
  "ErrEmptyPrompt = ''prompt cannot be empty''"

definition ErrCommandNotFound :: string where
  "ErrCommandNotFound = ''Gemini command not found in PATH''"

definition ErrCommandFailed :: string where
  "ErrCommandFailed = ''failed to execute Gemini command''"

definition ErrCommandTimeout :: string where
  "ErrCommandTimeout = ''command timed out''"

definition ErrCommandStart :: string where
  "ErrCommandStart = ''failed to start command''"

definition ErrParseOutput :: string where
  "ErrParseOutput = ''failed to parse Gemini output''"

definition ErrEmptyOutput :: string where
  "ErrEmptyOutput = ''empty output from Gemini command''"

definition ErrAuthFailed :: string where
  "ErrAuthFailed = ''authentication error: please check your Gemini API credentials''"

subsection \<open>Client and Config\<close>

text \<open>
  A \<open>Logger\<close> is an interface value: the no-op logger of the package, or a sink
  supplied by the caller, known only by a handle. A field of this type may be nil
  (\<open>None\<close>).
\<close>

datatype Logger = NoOpLogger | CallerLogger nat

record Client =
  logger :: "Logger option"
  timeout :: Duration
  model :: string
  workingDirectory :: string

record Config =
  Logger :: "Logger option"
  Timeout :: Duration
  Model :: string
  WorkingDirectory :: string

definition NewNoOpLogger :: Logger where
  "NewNoOpLogger = NoOpLogger"

text \<open>The fields a Go composite literal does not name hold their zero value.\<close>

definition NewClient :: Client where
  "NewClient =
     \<lparr>logger = Some NewNoOpLogger, timeout = DefaultTimeout, model = DefaultModel,
      workingDirectory = []\<rparr>"

definition NewClientWithConfig :: "Config \<Rightarrow> Client" where
  "NewClientWithConfig config =
     (let client = \<lparr>logger = None, timeout = DefaultTimeout, model = DefaultModel,
                     workingDirectory = []\<rparr>;
          client = (case Logger config of
                      Some l \<Rightarrow> client\<lparr>logger := Some l\<rparr>
                    | None \<Rightarrow> client\<lparr>logger := Some NewNoOpLogger\<rparr>);
          client = (if 0 < sint (Timeout config)
                    then client\<lparr>timeout := Timeout config\<rparr> else client);
          client = (if Model config \<noteq> []
                    then client\<lparr>model := Model config\<rparr> else client);
          client = (if WorkingDirectory config \<noteq> []
                    then client\<lparr>workingDirectory := WorkingDirectory config\<rparr> else client)
      in client)"

subsection \<open>Building the command\<close>

definition buildGeminiCommand :: "Client \<Rightarrow> string \<Rightarrow> string list" where
  "buildGeminiCommand c prompt = [GeminiCommand, GeminiPromptFlag, prompt]"

definition buildGeminiCommandWithModel :: "Client \<Rightarrow> string \<Rightarrow> string list" where
  "buildGeminiCommandWithModel c prompt =
     [GeminiCommand, GeminiModelFlag, model c, GeminiPromptFlag, prompt]"

subsection \<open>Parsing the output\<close>

definition filterPatterns :: "string list" where
  "filterPatterns =
     [''Loaded cached credentials.'',
      ''Loading cached credentials'',
      ''Authenticating'',
      ''Authentication successful'',
      ''Connected to Gemini API'',
      ''Using cached token'',
      ''Token refreshed'']"

definition shouldFilter :: "string \<Rightarrow> bool" where
  "shouldFilter trimmedLine = list_ex (\<lambda>pattern. Contains trimmedLine pattern) filterPatterns"

definition keepLine :: "string \<Rightarrow> bool" where
  "keepLine line =
     (let trimmedLine = TrimSpace line
      in \<not> shouldFilter trimmedLine \<and> trimmedLine \<noteq> [])"

definition filterGeminiOutput :: "Client \<Rightarrow> string \<Rightarrow> string" where
  "filterGeminiOutput c output =
     (let lines = Split output newline;
          filteredLines = filter keepLine lines;
          result = Join filteredLines [newline]
      in TrimSpace result)"

definition parseGeminiOutput :: "Client \<Rightarrow> string \<Rightarrow> error + string" where
  "parseGeminiOutput c output =
     (if length output = 0 then Inl (Errorf ErrEmptyOutput)
      else let result = TrimSpace output;
               result = filterGeminiOutput c result
           in if result = [] then Inl (Errorf ErrEmptyOutput) else Inr result)"

subsection \<open>Detecting authentication errors\<close>

definition getAuthErrorKeywords :: "Client \<Rightarrow> string list" where
  "getAuthErrorKeywords c =
     [''authentication failed'',
      ''invalid api key'',
      ''permission denied'',
      ''unauthorized'',
      ''access denied'']"

definition containsAnyKeyword :: "Client \<Rightarrow> string \<Rightarrow> string list \<Rightarrow> bool" where
  "containsAnyKeyword c text keywords =
     (let lowerText = ToLower text
      in list_ex (\<lambda>keyword. Contains lowerText keyword) keywords)"

definition detectAuthError :: "Client \<Rightarrow> string \<Rightarrow> bool" where
  "detectAuthError c output = containsAnyKeyword c output (getAuthErrorKeywords c)"

subsection \<open>Resolving relative paths\<close>

text \<open>
  The pattern of \<open>resolveRelativePaths\<close>, in its two alternatives: an explicit relative
  path, \<^verbatim>\<open>(?:\./|\.\./)[\w\-\.\/]+\<close>, and a file with a common extension,
  \<^verbatim>\<open>[\w\-\.\/]*\.(?:txt|md|...)\b\<close>.
\<close>

definition pathClass :: "char \<Rightarrow> bool" where
  "pathClass c = (wordChar c \<or> c = CHR ''-'' \<or> c = CHR ''.'' \<or> c = CHR ''/'')"

definition extensions :: "string list" where
  "extensions =
     [''txt'', ''md'', ''go'', ''js'', ''py'', ''json'', ''yaml'', ''yml'', ''xml'',
      ''html'', ''css'', ''sh'', ''conf'', ''cfg'', ''ini'', ''log'', ''out'', ''err'',
      ''csv'', ''tsv'', ''sql'', ''db'', ''lock'', ''mod'', ''sum'', ''env'', ''toml'',
      ''proto'', ''pb'', ''rs'', ''c'', ''cpp'', ''h'', ''hpp'', ''java'', ''kt'',
      ''php'', ''rb'', ''swift'', ''dart'', ''scala'', ''clj'', ''hs'', ''elm'',
      ''ml'', ''fs'', ''pl'', ''r'', ''m'', ''mm'', ''vue'', ''jsx'', ''tsx'',
      ''svelte'', ''astro'', ''wasm'', ''zip'', ''tar'', ''gz'', ''bz2'', ''xz'',
      ''7z'', ''rar'', ''pdf'', ''doc'', ''docx'', ''xls'', ''xlsx'', ''ppt'',
      ''pptx'', ''png'', ''jpg'', ''jpeg'', ''gif'', ''bmp'', ''svg'', ''webp'',
      ''ico'', ''mp3'', ''mp4'', ''avi'', ''mov'', ''wmv'', ''flv'', ''mkv'', ''webm'',
      ''wav'', ''ogg'', ''flac'', ''aac'', ''m4a'', ''ttf'', ''otf'', ''woff'',
      ''woff2'', ''eot'']"

definition extensionTail :: regex where
  "extensionTail = Seq (Lit ''.'') (Seq (alts extensions) WordBoundary)"

definition explicitRelative :: regex where
  "explicitRelative = Seq (Alt (Lit ''./'') (Lit ''../'')) (Plus (Class pathClass))"

definition withExtension :: regex where
  "withExtension = Seq (Star (Class pathClass)) extensionTail"

definition pathPattern :: regex where
  "pathPattern = Alt explicitRelative withExtension"

definition resolveRelativePaths :: "Client \<Rightarrow> string \<Rightarrow> string \<Rightarrow> error + string" where
  "resolveRelativePaths c prompt baseDir =
     (let result = ReplaceAllStringFunc pathPattern prompt
            (\<lambda>match.
               let match = TrimSpace match
               in if match = [] then match
                  else if IsAbs match then match
                  else let resolvedPath = filepathJoin [baseDir, match];
                           cleanPath = Clean resolvedPath
                       in cleanPath)
      in Inr result)"

subsection \<open>Running the command\<close>

text \<open>
  What a call does to the operating system is recorded as a list of effects, in order.
  What the operating system answers is an input: the current directory, the lookup of
  an executable, the environment, the current user, and what becomes of the child
  process. For the child, \<open>TimerFires\<close> stands for the branch of the \<open>select\<close> that
  receives from \<open>time.After\<close>, and \<open>Exits\<close> for the branch that receives the result of
  \<open>cmd.Wait\<close>, with the bytes written to standard output and standard error. The text
  that \<open>%v\<close> prints for a duration is an input too. Calls of the logger are left out.
\<close>

definition Error :: "error \<Rightarrow> string" where
  "Error err = (case err of Errorf msg \<Rightarrow> msg)"

datatype effect =
    Getwd
  | LookPath string
  | Getenv string
  | UserCurrent
  | Start string "string list" string
  | Wait
  | Kill

datatype child =
    StartFails error
  | Exits "error option" string string
  | TimerFires

record env =
  getwd :: "error + string"
  lookPath :: "string \<Rightarrow> error + string"
  getenv :: "string \<Rightarrow> string"
  userCurrent :: "error + string"
  child :: "string \<Rightarrow> string list \<Rightarrow> string \<Rightarrow> Duration \<Rightarrow> child"
  formatDuration :: "Duration \<Rightarrow> string"

record Cmd =
  Path :: string
  Args :: "string list"
  Dir :: string

definition Command :: "string \<Rightarrow> string list \<Rightarrow> Cmd" where
  "Command name arg = \<lparr>Path = name, Args = name # arg, Dir = []\<rparr>"

definition runCommandWithTimeout ::
    "env \<Rightarrow> Client \<Rightarrow> Cmd \<Rightarrow> Duration \<Rightarrow> (error + string) \<times> effect list" where
  "runCommandWithTimeout os c cmd timeout' =
     (let start = Start (Path cmd) (Args cmd) (Dir cmd)
      in case child os (Path cmd) (Args cmd) (Dir cmd) timeout' of
           StartFails err \<Rightarrow> (Inl (Errorf (ErrCommandStart @ '': '' @ Error err)), [start])
         | Exits werr stdout stderr \<Rightarrow>
             (case werr of
                Some err \<Rightarrow>
                  (let stdoutStr = TrimSpace stdout;
                       stderrStr = TrimSpace stderr;
                       combined = stdout @ stderr
                   in if detectAuthError c combined
                      then (Inl (Errorf ErrAuthFailed), [start, Wait])
                      else let errorMsg = ''command failed: '' @ Error err;
                               errorMsg = (if stderrStr \<noteq> []
                                           then errorMsg @ '' | stderr: '' @ stderrStr
                                           else errorMsg);
                               errorMsg = (if stdoutStr \<noteq> []
                                           then errorMsg @ '' | stdout: '' @ stdoutStr
                                           else errorMsg)
                           in (Inl (Errorf errorMsg), [start, Wait]))
              | None \<Rightarrow> (Inr stdout, [start, Wait]))
         | TimerFires \<Rightarrow>
             (Inl (Errorf (ErrCommandTimeout @ '' after '' @ formatDuration os timeout')),
              [start, Kill]))"

subsection \<open>Execute and ExecuteWithTimeout\<close>

text \<open>
  The two methods have the same body but for the timeout they pass on; \<open>executeWith\<close>
  is that body. Its steps are the blocks of the source: the check of the prompt, the
  resolution of relative paths, the lookup of the executable, the choice of the
  directory, the run and the parse. A call returns its result, its effects and the
  client, which it hands back as it got it.
\<close>

definition resolvePrompt :: "env \<Rightarrow> Client \<Rightarrow> string \<Rightarrow> string \<times> effect list" where
  "resolvePrompt os c prompt =
     (if workingDirectory c \<noteq> []
      then (case getwd os of
              Inl err \<Rightarrow> (prompt, [Getwd])
            | Inr currentDir \<Rightarrow>
                (case resolveRelativePaths c prompt currentDir of
                   Inl err \<Rightarrow> (prompt, [Getwd])
                 | Inr resolvedPrompt \<Rightarrow> (resolvedPrompt, [Getwd])))
      else (prompt, []))"

definition commandDir :: "env \<Rightarrow> Client \<Rightarrow> string \<times> effect list" where
  "commandDir os c =
     (if workingDirectory c \<noteq> [] then (workingDirectory c, [])
      else let dir = (case getwd os of Inl err \<Rightarrow> [] | Inr d \<Rightarrow> d)
           in if isl (getwd os) \<or> dir = []
              then let dir = getenv os ''HOME''
                   in if dir = []
                      then (case userCurrent os of
                              Inr homeDir \<Rightarrow> (homeDir, [Getwd, Getenv ''HOME'', UserCurrent])
                            | Inl err \<Rightarrow> (dir, [Getwd, Getenv ''HOME'', UserCurrent]))
                      else (dir, [Getwd, Getenv ''HOME''])
              else (dir, [Getwd]))"

definition executeWith ::
    "env \<Rightarrow> Client \<Rightarrow> string \<Rightarrow> Duration \<Rightarrow> (error + string) \<times> effect list \<times> Client" where
  "executeWith os c prompt timeout' =
     (if prompt = [] then (Inl (Errorf ErrEmptyPrompt), [], c)
      else
        let (resolvedPrompt, e1) = resolvePrompt os c prompt;
            cmdArgs = buildGeminiCommandWithModel c resolvedPrompt
        in case lookPath os (hd cmdArgs) of
             Inl err \<Rightarrow>
               (Inl (Errorf (''gemini command not found: '' @ Error err)),
                e1 @ [LookPath (hd cmdArgs)], c)
           | Inr geminiPath \<Rightarrow>
               let cmd = Command geminiPath (tl cmdArgs);
                   (dir, e2) = commandDir os c;
                   cmd = cmd\<lparr>Dir := dir\<rparr>;
                   (ran, e3) = runCommandWithTimeout os c cmd timeout';
                   es = e1 @ [LookPath (hd cmdArgs)] @ e2 @ e3
               in case ran of
                    Inl err \<Rightarrow> (Inl (Errorf (ErrCommandFailed @ '': '' @ Error err)), es, c)
                  | Inr output \<Rightarrow>
                      (case parseGeminiOutput c output of
                         Inl err \<Rightarrow> (Inl (Errorf (ErrParseOutput @ '': '' @ Error err)), es, c)
                       | Inr result \<Rightarrow> (Inr result, es, c)))"

definition Execute :: "env \<Rightarrow> Client \<Rightarrow> string \<Rightarrow> (error + string) \<times> effect list \<times> Client" where
  "Execute os c prompt = executeWith os c prompt (timeout c)"

definition ExecuteWithTimeout ::
    "env \<Rightarrow> Client \<Rightarrow> string \<Rightarrow> Duration \<Rightarrow> (error + string) \<times> effect list \<times> Client" where
  "ExecuteWithTimeout os c prompt timeout' = executeWith os c prompt timeout'"

subsection \<open>Package-level convenience functions\<close>


definition ParseGeminiOutput :: "string \<Rightarrow> error + string" where
  "ParseGeminiOutput output = parseGeminiOutput NewClient output"

section \<open>Notions used to state the properties\<close>

text \<open>Strings made of white space only.\<close>

inductive allSpace :: "string \<Rightarrow> bool" where
  allSpace_Nil: "allSpace []"
| allSpace_rune: "w \<in> set spaceRunes \<Longrightarrow> allSpace s \<Longrightarrow> allSpace (w @ s)"

text \<open>
  The lines of a result after the final trim: the first line without its leading white
  space, the last line without its trailing white space, the others as they are.
\<close>

definition trimOuter :: "string list \<Rightarrow> string list" where
  "trimOuter ls =
     (case ls of
        [] \<Rightarrow> []
      | l # ls' \<Rightarrow>
          (let ks = trimLeftSpace l # ls'
           in butlast ks @ [trimRightSpace (last ks)]))"




text \<open>
  Path-like tokens, in the words of the specification: a token of path-safe bytes that
  begins with \<open>./\<close> or \<open>../\<close> and goes on, or one that ends in a dot and a recognized
  extension, where the extension ends the word. \<open>longestToken\<close> is the longest token
  that begins the text, and \<open>replaceTokens\<close> the pass from left to right: a token is
  replaced, any other byte is copied. A token is a part of the text and need not be a
  whole word: in \<open>/abs/./x\<close> no token begins at the first byte, and \<open>./x\<close> is one.
\<close>

definition dotToken :: "string \<Rightarrow> bool" where
  "dotToken t =
     (list_all pathClass t \<and>
      ((prefix ''./'' t \<and> 2 < length t) \<or> (prefix ''../'' t \<and> 3 < length t)))"

definition extToken :: "string \<Rightarrow> bool" where
  "extToken t =
     (list_all pathClass t \<and> list_ex (\<lambda>e. suffix (CHR ''.'' # e) t) extensions)"

definition pathToken :: "string \<Rightarrow> string \<Rightarrow> bool" where
  "pathToken t rest = (dotToken t \<or> (extToken t \<and> \<not> wordAfter rest))"

definition longestToken :: "string \<Rightarrow> string option" where
  "longestToken s = find (\<lambda>t. pathToken t (drop (length t) s)) (rev (prefixes s))"

function replaceTokens :: "(string \<Rightarrow> string) \<Rightarrow> string \<Rightarrow> string" where
  "replaceTokens f s =
     (case longestToken s of
        Some t \<Rightarrow> f t @ replaceTokens f (drop (length t) s)
      | None \<Rightarrow> (case s of [] \<Rightarrow> [] | c # cs \<Rightarrow> c # replaceTokens f cs))"
  by pat_completeness auto
termination
proof (relation "measure (\<lambda>(f, s). length s)")
  fix f :: "string \<Rightarrow> string" and s t
  assume "longestToken s = Some t"
  then obtain i where "i < length (rev (prefixes s))" "t = rev (prefixes s) ! i"
    "pathToken t (drop (length t) s)"
    by (auto simp: longestToken_def find_Some_iff)
  then have "pathToken t (drop (length t) s)" "t \<in> set (prefixes s)"
    using nth_mem [of i "rev (prefixes s)"] by simp_all
  then have "t \<noteq> []" "prefix t s"
    by (auto simp: pathToken_def dotToken_def extToken_def list_ex_iff suffix_def)
  then show "((f, drop (length t) s), (f, s)) \<in> measure (\<lambda>(f, s). length s)"
    by (cases t) (auto simp: prefix_def)
qed auto

declare replaceTokens.simps [simp del]

text \<open>An absolute token stays; another one becomes the normalized join with the base.\<close>

definition resolveToken :: "string \<Rightarrow> string \<Rightarrow> string" where
  "resolveToken baseDir t = (if IsAbs t then t else Clean (baseDir @ ''/'' @ t))"

text \<open>Notions of the proofs: the shape of UTF-8 encodings, and the elements \<open>Clean\<close> keeps.\<close>

definition continuation :: "char \<Rightarrow> bool" where
  "continuation c = (128 \<le> (of_char c :: nat) \<and> (of_char c :: nat) < 192)"

definition runeLen :: "char \<Rightarrow> nat" where
  "runeLen c = (if (of_char c :: nat) < 128 then 1 else if (of_char c :: nat) < 224 then 2 else 3)"

definition normalStack :: "bool \<Rightarrow> string list \<Rightarrow> bool" where
  "normalStack rooted out =
     ((\<forall>e\<in>set out. e \<noteq> [] \<and> e \<noteq> ''.'' \<and> CHR ''/'' \<notin> set e)
      \<and> (rooted \<longrightarrow> ''..'' \<notin> set out)
      \<and> (\<exists>reals dots. out = reals @ dots \<and> ''..'' \<notin> set reals \<and> set dots \<subseteq> {''..''}))"

section \<open>Lemmas\<close>

subsection \<open>White-space runes\<close>

lemma spaceRunes_shape:
  "w \<in> set spaceRunes \<Longrightarrow> w \<noteq> [] \<and> \<not> continuation (hd w) \<and> (\<forall>c\<in>set (tl w). continuation c)"
  unfolding spaceRunes_def continuation_def by auto

lemma spaceRunes_len: "w \<in> set spaceRunes \<Longrightarrow> length w = runeLen (hd w)"
  unfolding spaceRunes_def runeLen_def by auto

lemma spaceRunes_newline: "w \<in> set spaceRunes \<Longrightarrow> newline \<in> set w \<Longrightarrow> w = [newline]"
  unfolding spaceRunes_def newline_def by auto

lemma newline_rune: "[newline] \<in> set spaceRunes"
  unfolding spaceRunes_def newline_def by simp

lemma spaceRunes_nonempty: "w \<in> set spaceRunes \<Longrightarrow> w \<noteq> []"
  using spaceRunes_shape by blast

lemma spaceRunes_prefix_free:
  assumes "w \<in> set spaceRunes" "v \<in> set spaceRunes" "prefix w v"
  shows "w = v"
proof -
  from assms obtain r where v: "v = w @ r" by (auto simp: prefix_def)
  have "w \<noteq> []" using assms(1) by (rule spaceRunes_nonempty)
  then have "hd v = hd w" using v by simp
  then have "length v = length w"
    using spaceRunes_len [OF assms(1)] spaceRunes_len [OF assms(2)] by simp
  then show ?thesis using v by simp
qed

lemma spaceRunes_no_overlap:
  "w \<in> set spaceRunes \<Longrightarrow> v \<in> set spaceRunes \<Longrightarrow> hd v \<notin> set (tl w)"
  using spaceRunes_shape by blast

lemma spaceRunes_suffix_free:
  assumes "w \<in> set spaceRunes" "v \<in> set spaceRunes" "suffix w v"
  shows "w = v"
proof (rule ccontr)
  assume neq: "w \<noteq> v"
  from assms obtain r where v: "v = r @ w" by (auto simp: suffix_def)
  with neq have "r \<noteq> []" by auto
  moreover have "w \<noteq> []" using assms(1) by (rule spaceRunes_nonempty)
  ultimately have "hd w \<in> set (tl v)" using v by (cases r; cases w) auto
  then show False using spaceRunes_no_overlap [OF assms(2) assms(1)] by simp
qed

lemma find_rune_prefix:
  assumes "w \<in> set spaceRunes"
  shows "find (\<lambda>v. prefix v (w @ s)) spaceRunes = Some w"
proof (cases "find (\<lambda>v. prefix v (w @ s)) spaceRunes")
  case None
  then show ?thesis using assms by (auto simp: find_None_iff)
next
  case (Some v)
  then have v: "v \<in> set spaceRunes" "prefix v (w @ s)"
    by (auto simp: find_Some_iff)
  have "prefix w (w @ s)" by simp
  with v(2) have "prefix v w \<or> prefix w v" by (rule prefix_same_cases)
  then have "v = w"
    using spaceRunes_prefix_free [OF v(1) assms] spaceRunes_prefix_free [OF assms v(1)] by auto
  with Some show ?thesis by simp
qed

lemma find_rune_suffix:
  assumes "w \<in> set spaceRunes"
  shows "find (\<lambda>v. suffix v (s @ w)) spaceRunes = Some w"
proof (cases "find (\<lambda>v. suffix v (s @ w)) spaceRunes")
  case None
  moreover have "suffix w (s @ w)" by (simp add: suffix_def)
  ultimately show ?thesis using assms by (auto simp: find_None_iff)
next
  case (Some v)
  then have v: "v \<in> set spaceRunes" "suffix v (s @ w)"
    by (auto simp: find_Some_iff)
  have "suffix w (s @ w)" by (simp add: suffix_def)
  with v(2) have "suffix v w \<or> suffix w v" by (rule suffix_same_cases)
  then have "v = w"
    using spaceRunes_suffix_free [OF v(1) assms] spaceRunes_suffix_free [OF assms v(1)] by auto
  with Some show ?thesis by simp
qed

subsection \<open>Trimming\<close>

lemma trimLeftSpace_rune:
  "w \<in> set spaceRunes \<Longrightarrow> trimLeftSpace (w @ s) = trimLeftSpace s"
  by (subst trimLeftSpace.simps) (simp add: find_rune_prefix)

lemma trimRightSpace_rune:
  "w \<in> set spaceRunes \<Longrightarrow> trimRightSpace (s @ w) = trimRightSpace s"
  by (subst trimRightSpace.simps) (simp add: find_rune_suffix)

lemma trimLeftSpace_no_rune:
  "\<forall>w\<in>set spaceRunes. \<not> prefix w s \<Longrightarrow> trimLeftSpace s = s"
  by (subst trimLeftSpace.simps) (simp add: find_None_iff [THEN iffD2])

lemma trimRightSpace_no_rune:
  "\<forall>w\<in>set spaceRunes. \<not> suffix w s \<Longrightarrow> trimRightSpace s = s"
  by (subst trimRightSpace.simps) (simp add: find_None_iff [THEN iffD2])

lemma trimLeftSpace_Nil [simp]: "trimLeftSpace [] = []"
  by (rule trimLeftSpace_no_rune) (auto dest: spaceRunes_nonempty)

lemma trimRightSpace_Nil [simp]: "trimRightSpace [] = []"
  by (rule trimRightSpace_no_rune) (auto dest: spaceRunes_nonempty)

lemma allSpace_append: "allSpace a \<Longrightarrow> allSpace b \<Longrightarrow> allSpace (a @ b)"
  by (induction rule: allSpace.induct) (auto intro: allSpace.intros)

lemma allSpace_single: "w \<in> set spaceRunes \<Longrightarrow> allSpace w"
  using allSpace_rune [OF _ allSpace_Nil] by simp

lemma trimLeftSpace_allSpace: "allSpace a \<Longrightarrow> trimLeftSpace (a @ s) = trimLeftSpace s"
  by (induction rule: allSpace.induct) (simp_all add: trimLeftSpace_rune)

lemma trimRightSpace_allSpace: "allSpace b \<Longrightarrow> trimRightSpace (s @ b) = trimRightSpace s"
proof (induction arbitrary: s rule: allSpace.induct)
  case allSpace_Nil
  then show ?case by simp
next
  case (allSpace_rune w b)
  have "trimRightSpace (s @ w @ b) = trimRightSpace ((s @ w) @ b)" by simp
  also have "\<dots> = trimRightSpace (s @ w)" by (rule allSpace_rune.IH)
  also have "\<dots> = trimRightSpace s" using allSpace_rune.hyps(1) by (rule trimRightSpace_rune)
  finally show ?case .
qed

text \<open>What is trimmed on the left is white space, and what is left starts with none.\<close>

lemma trimLeftSpace_split:
  "\<exists>a. allSpace a \<and> s = a @ trimLeftSpace s \<and> (\<forall>w\<in>set spaceRunes. \<not> prefix w (trimLeftSpace s))"
proof (induction s rule: trimLeftSpace.induct)
  case (1 s)
  show ?case
  proof (cases "find (\<lambda>w. prefix w s) spaceRunes")
    case None
    then have no: "\<forall>w\<in>set spaceRunes. \<not> prefix w s" by (simp add: find_None_iff)
    then have "trimLeftSpace s = s" by (rule trimLeftSpace_no_rune)
    with no show ?thesis using allSpace_Nil by auto
  next
    case (Some w)
    then have w: "w \<in> set spaceRunes" "prefix w s" by (auto simp: find_Some_iff)
    then obtain r where s: "s = w @ r" by (auto simp: prefix_def)
    then have r: "drop (length w) s = r" by simp
    from "1.IH" [OF Some] r obtain a where a: "allSpace a" "r = a @ trimLeftSpace r"
      "\<forall>v\<in>set spaceRunes. \<not> prefix v (trimLeftSpace r)" by auto
    have eq: "trimLeftSpace s = trimLeftSpace r" using s w(1) by (simp add: trimLeftSpace_rune)
    have "allSpace (w @ a)" using w(1) a(1) by (rule allSpace_rune)
    moreover have "s = (w @ a) @ trimLeftSpace s" using s a(2) eq by simp
    ultimately show ?thesis using a(3) eq by metis
  qed
qed

lemma trimRightSpace_split:
  "\<exists>b. allSpace b \<and> s = trimRightSpace s @ b \<and> (\<forall>w\<in>set spaceRunes. \<not> suffix w (trimRightSpace s))"
proof (induction s rule: trimRightSpace.induct)
  case (1 s)
  show ?case
  proof (cases "find (\<lambda>w. suffix w s) spaceRunes")
    case None
    then have no: "\<forall>w\<in>set spaceRunes. \<not> suffix w s" by (simp add: find_None_iff)
    then have "trimRightSpace s = s" by (rule trimRightSpace_no_rune)
    with no show ?thesis using allSpace_Nil by auto
  next
    case (Some w)
    then have w: "w \<in> set spaceRunes" "suffix w s" by (auto simp: find_Some_iff)
    then obtain r where s: "s = r @ w" by (auto simp: suffix_def)
    then have r: "take (length s - length w) s = r" by simp
    from "1.IH" [OF Some] r obtain b where b: "allSpace b" "r = trimRightSpace r @ b"
      "\<forall>v\<in>set spaceRunes. \<not> suffix v (trimRightSpace r)" by auto
    have eq: "trimRightSpace s = trimRightSpace r" using s w(1) by (simp add: trimRightSpace_rune)
    have "allSpace (b @ w)" using b(1) allSpace_single [OF w(1)] by (rule allSpace_append)
    moreover have "s = trimRightSpace s @ (b @ w)" using s b(2) eq by simp
    ultimately show ?thesis using b(3) eq by metis
  qed
qed

lemma trimLeftSpace_Nil_iff: "trimLeftSpace s = [] \<longleftrightarrow> allSpace s"
proof
  assume "trimLeftSpace s = []"
  then show "allSpace s" using trimLeftSpace_split [of s] by auto
next
  assume "allSpace s"
  then show "trimLeftSpace s = []" using trimLeftSpace_allSpace [of s "[]"] by simp
qed

lemma trimRightSpace_Nil_iff: "trimRightSpace s = [] \<longleftrightarrow> allSpace s"
proof
  assume "trimRightSpace s = []"
  then show "allSpace s" using trimRightSpace_split [of s] by auto
next
  assume "allSpace s"
  then show "trimRightSpace s = []" using trimRightSpace_allSpace [of s "[]"] by simp
qed

lemma allSpace_rune_prefix:
  "allSpace s \<Longrightarrow> s \<noteq> [] \<Longrightarrow> \<exists>w\<in>set spaceRunes. prefix w s"
proof (induction rule: allSpace.induct)
  case allSpace_Nil
  then show ?case by simp
next
  case (allSpace_rune w s)
  have "prefix w (w @ s)" by simp
  with allSpace_rune.hyps(1) show ?case by blast
qed

lemma allSpace_drop_rune:
  assumes "allSpace (w @ s)" "w \<in> set spaceRunes"
  shows "allSpace s"
proof -
  have "trimLeftSpace (w @ s) = []" using assms(1) by (simp add: trimLeftSpace_Nil_iff)
  then have "trimLeftSpace s = []" using assms(2) by (simp add: trimLeftSpace_rune)
  then show ?thesis by (simp add: trimLeftSpace_Nil_iff)
qed

text \<open>
  White space appended to a string that starts with none cannot complete a white-space
  rune across the seam: runes start with a byte that is no continuation byte.
\<close>

lemma no_rune_prefix_append:
  assumes no: "\<forall>w\<in>set spaceRunes. \<not> prefix w t" and t: "t \<noteq> []" and b: "allSpace b"
  shows "\<forall>w\<in>set spaceRunes. \<not> prefix w (t @ b)"
proof
  fix w assume w: "w \<in> set spaceRunes"
  show "\<not> prefix w (t @ b)"
  proof
    assume p: "prefix w (t @ b)"
    have "\<not> prefix w t" using no w by blast
    with p obtain r where r: "r \<noteq> []" "prefix r b" "w = t @ r"
      by (auto simp: prefix_append)
    then have bne: "b \<noteq> []" by auto
    then obtain v where v: "v \<in> set spaceRunes" "prefix v b"
      using allSpace_rune_prefix [OF b] by blast
    have "hd v = hd b" using v spaceRunes_nonempty [OF v(1)] by (auto simp: prefix_def)
    also have "hd b = hd r" using r(1,2) by (auto simp: prefix_def)
    finally have "hd v \<in> set (tl w)" using r(1,3) t by (cases t) auto
    then show False using spaceRunes_no_overlap [OF w v(1)] by simp
  qed
qed

lemma trimLeftSpace_append:
  assumes "\<not> allSpace s" "allSpace b"
  shows "trimLeftSpace (s @ b) = trimLeftSpace s @ b"
proof -
  obtain a where a: "allSpace a" "s = a @ trimLeftSpace s"
    "\<forall>w\<in>set spaceRunes. \<not> prefix w (trimLeftSpace s)"
    using trimLeftSpace_split [of s] by blast
  have ne: "trimLeftSpace s \<noteq> []" using assms(1) by (simp add: trimLeftSpace_Nil_iff)
  have "trimLeftSpace (s @ b) = trimLeftSpace (a @ (trimLeftSpace s @ b))"
    using a(2) by (metis append_assoc)
  also have "\<dots> = trimLeftSpace (trimLeftSpace s @ b)"
    using a(1) by (rule trimLeftSpace_allSpace)
  also have "\<dots> = trimLeftSpace s @ b"
    using no_rune_prefix_append [OF a(3) ne assms(2)] by (rule trimLeftSpace_no_rune)
  finally show ?thesis .
qed

lemma TrimSpace_Nil_iff: "TrimSpace s = [] \<longleftrightarrow> allSpace s"
proof
  assume e: "TrimSpace s = []"
  show "allSpace s"
  proof (rule ccontr)
    assume n: "\<not> allSpace s"
    then have ne: "trimLeftSpace s \<noteq> []" by (simp add: trimLeftSpace_Nil_iff)
    from e have "allSpace (trimLeftSpace s)" by (simp add: TrimSpace_def trimRightSpace_Nil_iff)
    from allSpace_rune_prefix [OF this ne] show False
      using trimLeftSpace_split [of s] by blast
  qed
next
  assume "allSpace s"
  then show "TrimSpace s = []" by (simp add: TrimSpace_def trimLeftSpace_Nil_iff [THEN iffD2])
qed

lemma TrimSpace_Nil [simp]: "TrimSpace [] = []"
  by (simp add: TrimSpace_def)

lemma TrimSpace_allSpace:
  assumes a: "allSpace a" and b: "allSpace b"
  shows "TrimSpace (a @ s @ b) = TrimSpace s"
proof (cases "allSpace s")
  case True
  then have "allSpace (a @ s @ b)" using a b by (simp add: allSpace_append)
  then have "TrimSpace (a @ s @ b) = []" by (simp only: TrimSpace_Nil_iff)
  moreover have "TrimSpace s = []" using True by (simp only: TrimSpace_Nil_iff)
  ultimately show ?thesis by simp
next
  case False
  have "trimLeftSpace (a @ s @ b) = trimLeftSpace (s @ b)"
    using a by (rule trimLeftSpace_allSpace)
  also have "\<dots> = trimLeftSpace s @ b" using False b by (rule trimLeftSpace_append)
  finally show ?thesis using b by (simp add: TrimSpace_def trimRightSpace_allSpace)
qed

lemma TrimSpace_split:
  "\<exists>a b. allSpace a \<and> allSpace b \<and> s = a @ TrimSpace s @ b"
proof -
  obtain a where a: "allSpace a" "s = a @ trimLeftSpace s"
    using trimLeftSpace_split [of s] by blast
  obtain b where b: "allSpace b" "trimLeftSpace s = TrimSpace s @ b"
    using trimRightSpace_split [of "trimLeftSpace s"] by (auto simp: TrimSpace_def)
  show ?thesis using a b by metis
qed

lemma TrimSpace_idem: "TrimSpace (TrimSpace s) = TrimSpace s"
proof -
  obtain a b where "allSpace a" "allSpace b" "s = a @ TrimSpace s @ b"
    using TrimSpace_split [of s] by blast
  then show ?thesis using TrimSpace_allSpace [of a b "TrimSpace s"] by simp
qed

lemma allSpace_newline:
  "allSpace (x @ newline # y) \<longleftrightarrow> allSpace x \<and> allSpace y"
proof
  assume "allSpace x \<and> allSpace y"
  then show "allSpace (x @ newline # y)"
    using allSpace_append [of x "[newline] @ y"] allSpace_rune [OF newline_rune, of y] by simp
next
  assume "allSpace (x @ newline # y)"
  then show "allSpace x \<and> allSpace y"
  proof (induction x rule: length_induct)
    case (1 x)
    show ?case
    proof (cases "x = []")
      case True
      with 1(2) have "allSpace ([newline] @ y)" by simp
      then have "allSpace y" using newline_rune by (rule allSpace_drop_rune)
      with True show ?thesis by (simp add: allSpace_Nil)
    next
      case False
      obtain w where w: "w \<in> set spaceRunes" "prefix w (x @ newline # y)"
        using allSpace_rune_prefix [OF 1(2)] by auto
      have "prefix w x"
      proof (rule ccontr)
        assume "\<not> prefix w x"
        with w(2) obtain r where r: "r \<noteq> []" "prefix r (newline # y)" "w = x @ r"
          by (auto simp: prefix_append)
        then have "newline \<in> set w" by (cases r) auto
        then have "w = [newline]" using w(1) spaceRunes_newline by blast
        with r False show False by (cases x) auto
      qed
      then obtain x' where x': "x = w @ x'" by (auto simp: prefix_def)
      have "allSpace (w @ (x' @ newline # y))" using 1(2) x' by simp
      then have "allSpace (x' @ newline # y)" using w(1) by (rule allSpace_drop_rune)
      moreover have "length x' < length x" using x' spaceRunes_nonempty [OF w(1)] by (cases w) auto
      ultimately have "allSpace x' \<and> allSpace y" using 1(1) by blast
      then show ?thesis using x' allSpace_rune [OF w(1), of x'] by simp
    qed
  qed
qed

lemma trimLeftSpace_not_allSpace:
  assumes "\<not> allSpace s"
  shows "\<not> allSpace (trimLeftSpace s)"
proof
  assume a: "allSpace (trimLeftSpace s)"
  have ne: "trimLeftSpace s \<noteq> []" using assms by (simp add: trimLeftSpace_Nil_iff)
  from allSpace_rune_prefix [OF a ne] show False
    using trimLeftSpace_split [of s] by blast
qed

lemma trimLeftSpace_before_newline:
  assumes "\<not> allSpace k"
  shows "trimLeftSpace (k @ newline # y) = trimLeftSpace k @ newline # y"
proof -
  obtain a where a: "allSpace a" "k = a @ trimLeftSpace k"
    "\<forall>w\<in>set spaceRunes. \<not> prefix w (trimLeftSpace k)"
    using trimLeftSpace_split [of k] by blast
  define t where "t = trimLeftSpace k"
  have ne: "t \<noteq> []" using assms by (simp add: t_def trimLeftSpace_Nil_iff)
  have no: "\<forall>w\<in>set spaceRunes. \<not> prefix w (t @ newline # y)"
  proof
    fix w assume w: "w \<in> set spaceRunes"
    show "\<not> prefix w (t @ newline # y)"
    proof
      assume p: "prefix w (t @ newline # y)"
      have "\<not> prefix w t" using a(3) w by (simp add: t_def)
      with p obtain r where r: "r \<noteq> []" "prefix r (newline # y)" "w = t @ r"
        by (auto simp: prefix_append)
      then have "newline \<in> set w" by (cases r) auto
      then have "w = [newline]" using w spaceRunes_newline by blast
      with r ne show False by (cases t) auto
    qed
  qed
  have "trimLeftSpace (k @ newline # y) = trimLeftSpace (a @ (t @ newline # y))"
    using a(2) by (metis append_assoc t_def)
  also have "\<dots> = trimLeftSpace (t @ newline # y)" using a(1) by (rule trimLeftSpace_allSpace)
  also have "\<dots> = t @ newline # y" using no by (rule trimLeftSpace_no_rune)
  finally show ?thesis by (simp add: t_def)
qed

lemma trimRightSpace_after_newline:
  assumes "\<not> allSpace k"
  shows "trimRightSpace (y @ newline # k) = y @ newline # trimRightSpace k"
proof -
  obtain b where b: "allSpace b" "k = trimRightSpace k @ b"
    "\<forall>w\<in>set spaceRunes. \<not> suffix w (trimRightSpace k)"
    using trimRightSpace_split [of k] by blast
  define t where "t = trimRightSpace k"
  have ne: "t \<noteq> []" using assms by (simp add: t_def trimRightSpace_Nil_iff)
  have no: "\<forall>w\<in>set spaceRunes. \<not> suffix w ((y @ [newline]) @ t)"
  proof
    fix w assume w: "w \<in> set spaceRunes"
    show "\<not> suffix w ((y @ [newline]) @ t)"
    proof
      assume p: "suffix w ((y @ [newline]) @ t)"
      have "\<not> suffix w t" using b(3) w by (simp add: t_def)
      moreover from p have "suffix w t \<or> (\<exists>r. w = r @ t \<and> suffix r (y @ [newline]))"
        by (simp only: suffix_append)
      ultimately obtain r where r: "suffix r (y @ [newline])" "w = r @ t"
        by blast
      with \<open>\<not> suffix w t\<close> have "r \<noteq> []" by auto
      from r(1) obtain zs where "y @ [newline] = zs @ r" by (auto simp: suffix_def)
      then have "last (y @ [newline]) = last (zs @ r)" by simp
      with \<open>r \<noteq> []\<close> have "last r = newline" by simp
      with \<open>r \<noteq> []\<close> have "newline \<in> set r" using last_in_set by metis
      then have "newline \<in> set w" using r(2) by simp
      then have "w = [newline]" using w spaceRunes_newline by blast
      with r(2) ne \<open>r \<noteq> []\<close> show False by (cases r) auto
    qed
  qed
  have "trimRightSpace (y @ newline # k) = trimRightSpace (((y @ [newline]) @ t) @ b)"
    using b(2) by (simp add: t_def)
  also have "\<dots> = trimRightSpace ((y @ [newline]) @ t)" using b(1) by (rule trimRightSpace_allSpace)
  also have "\<dots> = (y @ [newline]) @ t" using no by (rule trimRightSpace_no_rune)
  finally show ?thesis by (simp add: t_def)
qed

subsection \<open>Splitting and joining\<close>

lemma Split_Nil [simp]: "Split [] sep = [[]]"
  by (subst Split.simps) simp

lemma Split_Cons [simp]:
  "Split (c # cs) sep =
     (if c = sep then [] # Split cs sep
      else (c # hd (Split cs sep)) # tl (Split cs sep))"
proof (cases "c = sep")
  case True
  then show ?thesis by (subst Split.simps) simp
next
  case False
  have A: "Split (c # cs) sep =
      (case dropWhile (\<lambda>c. c \<noteq> sep) cs of
         [] \<Rightarrow> [c # cs]
       | _ # rest \<Rightarrow> (c # takeWhile (\<lambda>c. c \<noteq> sep) cs) # Split rest sep)"
  proof -
    have "dropWhile (\<lambda>c. c \<noteq> sep) (c # cs) = dropWhile (\<lambda>c. c \<noteq> sep) cs"
      "takeWhile (\<lambda>c. c \<noteq> sep) (c # cs) = c # takeWhile (\<lambda>c. c \<noteq> sep) cs"
      using False by simp_all
    then show ?thesis by (subst Split.simps) (simp only:)
  qed
  have B: "Split cs sep =
      (case dropWhile (\<lambda>c. c \<noteq> sep) cs of
         [] \<Rightarrow> [cs]
       | _ # rest \<Rightarrow> takeWhile (\<lambda>c. c \<noteq> sep) cs # Split rest sep)"
    by (rule Split.simps)
  show ?thesis
  proof (cases "dropWhile (\<lambda>c. c \<noteq> sep) cs")
    case Nil
    show ?thesis unfolding A B Nil using False by simp
  next
    case (Cons x rest)
    show ?thesis unfolding A B Cons using False by simp
  qed
qed

lemma Split_nonempty [simp]: "Split s sep \<noteq> []"
  by (cases s) auto

lemma Split_Cons_sep: "Split (sep # s) sep = [] # Split s sep"
  by simp

lemma Split_append_nosep:
  "sep \<notin> set w \<Longrightarrow> Split (w @ s) sep = (w @ hd (Split s sep)) # tl (Split s sep)"
  by (induction w) auto

lemma Split_snoc_sep: "Split (s @ [sep]) sep = Split s sep @ [[]]"
  by (induction s) (auto simp: hd_append)

lemma Split_snoc_nosep:
  "sep \<notin> set w \<Longrightarrow> Split (s @ w) sep = butlast (Split s sep) @ [last (Split s sep) @ w]"
proof (induction s)
  case Nil
  then show ?case using Split_append_nosep [of sep w "[]"] by simp
next
  case (Cons c s)
  then show ?case
    by (cases "Split s sep") (auto simp: hd_append butlast_append)
qed

lemma Split_no_sep: "l \<in> set (Split s sep) \<Longrightarrow> sep \<notin> set l"
proof (induction s arbitrary: l)
  case Nil
  then show ?case by simp
next
  case (Cons c s)
  then show ?case
    by (cases "Split s sep") (auto split: if_splits)
qed

lemma Split_Join:
  "ls \<noteq> [] \<Longrightarrow> \<forall>l\<in>set ls. sep \<notin> set l \<Longrightarrow> Split (Join ls [sep]) sep = ls"
proof (induction ls "[sep]" rule: Join.induct)
  case 1
  then show ?case by simp
next
  case (2 e)
  then show ?case using Split_append_nosep [of sep e "[]"] by simp
next
  case (3 e e' es)
  then have "Split (Join (e' # es) [sep]) sep = e' # es" by simp
  then show ?case using 3(3) Split_append_nosep [of sep e "sep # Join (e' # es) [sep]"] by simp
qed

lemma Join_Cons_append: "Join ((w @ l) # ls) sep = w @ Join (l # ls) sep"
  by (cases ls) simp_all

lemma Join_snoc: "ls \<noteq> [] \<Longrightarrow> Join (ls @ [l]) sep = Join ls sep @ sep @ l"
  by (induction ls sep rule: Join.induct) simp_all

lemma Join_snoc_append: "Join (ls @ [l @ w]) sep = Join (ls @ [l]) sep @ w"
  by (cases "ls = []") (simp_all add: Join_snoc)

lemma Join_not_allSpace:
  "ls \<noteq> [] \<Longrightarrow> \<forall>l\<in>set ls. \<not> allSpace l \<Longrightarrow> \<not> allSpace (Join ls [newline])"
  by (induction ls "[newline]" rule: Join.induct) (simp_all add: allSpace_newline)

lemma trimLeftSpace_Join:
  "\<not> allSpace k \<Longrightarrow> trimLeftSpace (Join (k # ks) [newline]) = Join (trimLeftSpace k # ks) [newline]"
  by (cases ks) (simp_all add: trimLeftSpace_before_newline)

lemma trimRightSpace_Join:
  assumes "ks \<noteq> []" "\<not> allSpace (last ks)"
  shows "trimRightSpace (Join ks [newline]) = Join (butlast ks @ [trimRightSpace (last ks)]) [newline]"
proof (cases "butlast ks = []")
  case True
  then have "ks = [last ks]" using assms(1) by (metis append_butlast_last_id append_Nil)
  then have "Join ks [newline] = last ks" by (metis Join.simps(2))
  then show ?thesis using True by simp
next
  case False
  have "Join ks [newline] = Join (butlast ks @ [last ks]) [newline]" using assms(1) by simp
  also have "\<dots> = Join (butlast ks) [newline] @ newline # last ks"
    using False by (simp add: Join_snoc)
  finally show ?thesis
    using False assms(2) by (simp add: Join_snoc trimRightSpace_after_newline)
qed

lemma TrimSpace_Join:
  assumes "\<forall>l\<in>set ls. \<not> allSpace l"
  shows "TrimSpace (Join ls [newline]) = Join (trimOuter ls) [newline]"
proof (cases ls)
  case Nil
  then show ?thesis by (simp add: trimOuter_def)
next
  case (Cons k ks)
  define ks' where "ks' = trimLeftSpace k # ks"
  have k: "\<not> allSpace k" using assms Cons by simp
  have "\<not> allSpace (last ks')"
    using k assms Cons by (auto simp: ks'_def trimLeftSpace_not_allSpace)
  then have "trimRightSpace (Join ks' [newline]) = Join (butlast ks' @ [trimRightSpace (last ks')]) [newline]"
    by (intro trimRightSpace_Join) (simp_all add: ks'_def)
  then show ?thesis
    using Cons k by (simp add: TrimSpace_def trimLeftSpace_Join trimOuter_def ks'_def Let_def)
qed

lemma Contains_iff: "Contains s substr \<longleftrightarrow> (\<exists>pre post. s = pre @ substr @ post)"
proof (induction s)
  case Nil
  then show ?case by auto
next
  case (Cons c cs)
  show ?case
  proof
    assume "Contains (c # cs) substr"
    then consider "prefix substr (c # cs)" | "Contains cs substr" by auto
    then show "\<exists>pre post. c # cs = pre @ substr @ post"
    proof cases
      case 1
      then obtain post where "c # cs = [] @ substr @ post" by (auto simp: prefix_def)
      then show ?thesis by blast
    next
      case 2
      then obtain pre post where "cs = pre @ substr @ post" using Cons.IH by blast
      then have "c # cs = (c # pre) @ substr @ post" by simp
      then show ?thesis by blast
    qed
  next
    assume "\<exists>pre post. c # cs = pre @ substr @ post"
    then obtain pre post where e: "c # cs = pre @ substr @ post" by blast
    show "Contains (c # cs) substr"
    proof (cases pre)
      case Nil
      with e have "prefix substr (c # cs)" by (simp add: prefix_def)
      then show ?thesis by simp
    next
      case (Cons p pre')
      with e have "cs = pre' @ substr @ post" by simp
      then show ?thesis using Cons.IH by auto
    qed
  qed
qed

subsection \<open>Filtering\<close>

lemma keepLine_Nil [simp]: "\<not> keepLine []"
  by (simp add: keepLine_def)

lemma keepLine_allSpace:
  "allSpace a \<Longrightarrow> allSpace b \<Longrightarrow> keepLine (a @ l @ b) = keepLine l"
  by (simp add: keepLine_def TrimSpace_allSpace)

lemma keepLine_not_allSpace: "keepLine l \<Longrightarrow> \<not> allSpace l"
  by (auto simp: keepLine_def Let_def TrimSpace_Nil_iff)

lemma keepLine_iff:
  "keepLine line \<longleftrightarrow>
     \<not> (TrimSpace line = [] \<or>
        (\<exists>p\<in>set [''Loaded cached credentials.'', ''Loading cached credentials'',
                   ''Authenticating'', ''Authentication successful'',
                   ''Connected to Gemini API'', ''Using cached token'', ''Token refreshed''].
           \<exists>pre post. TrimSpace line = pre @ p @ post))"
  unfolding keepLine_def Let_def shouldFilter_def filterPatterns_def list_ex_iff Contains_iff
  by blast

lemma filterGeminiOutput_rune_left:
  assumes w: "w \<in> set spaceRunes"
  shows "filterGeminiOutput c (w @ s) = filterGeminiOutput c s"
proof (cases "w = [newline]")
  case True
  then show ?thesis by (simp add: filterGeminiOutput_def)
next
  case False
  then have nl: "newline \<notin> set w" using w spaceRunes_newline by blast
  define L where "L = Split s newline"
  obtain l ls where L: "L = l # ls" using Split_nonempty [of s newline] by (cases L) (auto simp: L_def)
  have sp: "Split (w @ s) newline = (w @ l) # ls"
    using Split_append_nosep [OF nl, of s] L by (simp add: L_def)
  have aw: "allSpace w" using w by (rule allSpace_single)
  have k: "keepLine (w @ l) = keepLine l"
    using keepLine_allSpace [OF aw allSpace_Nil, of l] by simp
  have t: "\<And>x. TrimSpace (w @ x) = TrimSpace x"
    using TrimSpace_allSpace [OF aw allSpace_Nil] by simp
  show ?thesis
    using L by (simp add: filterGeminiOutput_def sp L_def [symmetric] k Join_Cons_append t)
qed

lemma filterGeminiOutput_rune_right:
  assumes w: "w \<in> set spaceRunes"
  shows "filterGeminiOutput c (s @ w) = filterGeminiOutput c s"
proof (cases "w = [newline]")
  case True
  then show ?thesis by (simp add: filterGeminiOutput_def Split_snoc_sep)
next
  case False
  then have nl: "newline \<notin> set w" using w spaceRunes_newline by blast
  define L where "L = Split s newline"
  have Lne: "L \<noteq> []" by (simp add: L_def)
  then have L: "L = butlast L @ [last L]" by simp
  have sp: "Split (s @ w) newline = butlast L @ [last L @ w]"
    using Split_snoc_nosep [OF nl, of s] by (simp add: L_def)
  have aw: "allSpace w" using w by (rule allSpace_single)
  have k: "keepLine (last L @ w) = keepLine (last L)"
    using keepLine_allSpace [OF allSpace_Nil aw, of "last L"] by simp
  have t: "\<And>x. TrimSpace (x @ w) = TrimSpace x"
    using TrimSpace_allSpace [OF allSpace_Nil aw] by simp
  have "filter keepLine L = filter keepLine (butlast L) @ filter keepLine [last L]"
    by (subst L) (simp only: filter_append)
  then show ?thesis
    by (simp add: filterGeminiOutput_def sp L_def [symmetric] k Join_snoc_append t)
qed

lemma filterGeminiOutput_allSpace_left:
  "allSpace a \<Longrightarrow> filterGeminiOutput c (a @ s) = filterGeminiOutput c s"
  by (induction rule: allSpace.induct) (simp_all add: filterGeminiOutput_rune_left)

lemma filterGeminiOutput_allSpace_right:
  "allSpace b \<Longrightarrow> filterGeminiOutput c (s @ b) = filterGeminiOutput c s"
proof (induction arbitrary: s rule: allSpace.induct)
  case allSpace_Nil
  then show ?case by simp
next
  case (allSpace_rune w b)
  have "filterGeminiOutput c (s @ w @ b) = filterGeminiOutput c ((s @ w) @ b)" by simp
  also have "\<dots> = filterGeminiOutput c (s @ w)" by (rule allSpace_rune.IH)
  also have "\<dots> = filterGeminiOutput c s"
    using allSpace_rune.hyps(1) by (rule filterGeminiOutput_rune_right)
  finally show ?case .
qed

lemma filterGeminiOutput_TrimSpace:
  "filterGeminiOutput c (TrimSpace s) = filterGeminiOutput c s"
proof -
  obtain a b where ab: "allSpace a" "allSpace b" "s = a @ TrimSpace s @ b"
    using TrimSpace_split [of s] by blast
  have "filterGeminiOutput c (a @ TrimSpace s @ b) = filterGeminiOutput c (TrimSpace s @ b)"
    using ab(1) by (rule filterGeminiOutput_allSpace_left)
  also have "\<dots> = filterGeminiOutput c (TrimSpace s)"
    using ab(2) by (rule filterGeminiOutput_allSpace_right)
  finally show ?thesis using ab(3) by simp
qed

lemma filterGeminiOutput_Nil_iff:
  "filterGeminiOutput c s = [] \<longleftrightarrow> filter keepLine (Split s newline) = []"
proof
  assume "filter keepLine (Split s newline) = []"
  then show "filterGeminiOutput c s = []" by (simp add: filterGeminiOutput_def)
next
  assume e: "filterGeminiOutput c s = []"
  show "filter keepLine (Split s newline) = []"
  proof (rule ccontr)
    assume ne: "filter keepLine (Split s newline) \<noteq> []"
    have "\<forall>l\<in>set (filter keepLine (Split s newline)). \<not> allSpace l"
      by (simp add: keepLine_not_allSpace)
    with ne have "\<not> allSpace (Join (filter keepLine (Split s newline)) [newline])"
      by (rule Join_not_allSpace)
    then show False using e by (simp add: filterGeminiOutput_def TrimSpace_Nil_iff)
  qed
qed

lemma filterGeminiOutput_idem:
  "filterGeminiOutput c (filterGeminiOutput c s) = filterGeminiOutput c s"
proof (cases "filter keepLine (Split s newline) = []")
  case True
  then show ?thesis by (simp add: filterGeminiOutput_def)
next
  case False
  define K where "K = filter keepLine (Split s newline)"
  have nos: "\<forall>l\<in>set K. newline \<notin> set l" by (auto simp: K_def dest: Split_no_sep)
  have "filterGeminiOutput c (filterGeminiOutput c s)
      = filterGeminiOutput c (TrimSpace (Join K [newline]))"
    by (simp add: filterGeminiOutput_def K_def)
  also have "\<dots> = filterGeminiOutput c (Join K [newline])"
    by (rule filterGeminiOutput_TrimSpace)
  also have "\<dots> = TrimSpace (Join (filter keepLine K) [newline])"
    using False nos by (simp add: filterGeminiOutput_def Split_Join K_def [symmetric])
  also have "filter keepLine K = K" by (simp add: K_def)
  finally show ?thesis by (simp add: filterGeminiOutput_def K_def)
qed

lemma parseGeminiOutput_eq:
  "parseGeminiOutput c out =
     (if filter keepLine (Split out newline) = [] then Inl (Errorf ErrEmptyOutput)
      else Inr (TrimSpace (Join (filter keepLine (Split out newline)) [newline])))"
proof (cases "out = []")
  case True
  then show ?thesis by (simp add: parseGeminiOutput_def)
next
  case False
  have "filterGeminiOutput c (TrimSpace out) = filterGeminiOutput c out"
    by (rule filterGeminiOutput_TrimSpace)
  moreover have "filterGeminiOutput c out = [] \<longleftrightarrow> filter keepLine (Split out newline) = []"
    by (rule filterGeminiOutput_Nil_iff)
  ultimately show ?thesis
    using False by (simp add: parseGeminiOutput_def Let_def) (simp add: filterGeminiOutput_def)
qed

subsection \<open>Lower case\<close>





subsection \<open>Construction\<close>

lemma model_NewClientWithConfig:
  "model (NewClientWithConfig config) =
     (if Model config = [] then DefaultModel else Model config)"
  by (simp add: NewClientWithConfig_def Let_def split: option.split)

lemma timeout_NewClientWithConfig:
  "timeout (NewClientWithConfig config) =
     (if 0 < sint (Timeout config) then Timeout config else DefaultTimeout)"
  by (simp add: NewClientWithConfig_def Let_def split: option.split)

subsection \<open>The path pattern\<close>

lemma extensions_word: "e \<in> set extensions \<Longrightarrow> e \<noteq> [] \<and> list_all wordChar e"
  unfolding extensions_def by (auto simp: wordChar_def)

lemma matches_Star_Class_Nil: "matches (Star (Class P)) (p, []) = [(p, [])]"
  by (simp add: matches.simps(5))

lemma matches_Star_Class_Cons:
  "matches (Star (Class P)) (p, c # cs) =
     (if P c then matches (Star (Class P)) (Some c, cs) else []) @ [(p, c # cs)]"
  by (simp add: matches.simps(5))

lemma matches_Star_Class_hd:
  "matches (Star (Class P)) (p, s) \<noteq> [] \<and>
   hd (matches (Star (Class P)) (p, s)) =
     (if takeWhile P s = [] then p else Some (last (takeWhile P s)), dropWhile P s)"
proof (induction s arbitrary: p)
  case Nil
  show ?case by (simp add: matches_Star_Class_Nil)
next
  case (Cons c cs)
  show ?case
  proof (cases "P c")
    case True
    have "matches (Star (Class P)) (p, c # cs) = matches (Star (Class P)) (Some c, cs) @ [(p, c # cs)]"
      using True by (simp only: matches_Star_Class_Cons if_True)
    then show ?thesis using Cons.IH [of "Some c"] True by simp
  next
    case False
    then show ?thesis by (simp add: matches_Star_Class_Cons)
  qed
qed

lemma matches_withExtension_Nil:
  "matches withExtension (p, []) = matches extensionTail (p, [])"
  by (simp add: withExtension_def matches_Star_Class_Nil)

lemma matches_withExtension_Cons:
  "matches withExtension (p, c # cs) =
     (if pathClass c then matches withExtension (Some c, cs) else [])
       @ matches extensionTail (p, c # cs)"
  by (simp add: withExtension_def matches_Star_Class_Cons)

lemma matches_alts:
  "\<forall>e\<in>set es. e \<noteq> [] \<Longrightarrow>
   matches (alts es) (q, u) =
     map (\<lambda>e. (Some (last e), drop (length e) u)) (filter (\<lambda>e. prefix e u) es)"
  by (induction es rule: alts.induct) (auto split: list.split)

lemma matches_extensionTail:
  "matches extensionTail (q, u) =
     (case u of
        [] \<Rightarrow> []
      | c # u' \<Rightarrow>
          if c = CHR ''.''
          then map (\<lambda>e. (Some (last e), drop (length e) u'))
                 (filter (\<lambda>e. prefix e u' \<and> \<not> wordAfter (drop (length e) u')) extensions)
          else [])"
proof (cases u)
  case Nil
  then show ?thesis by (simp add: extensionTail_def)
next
  case (Cons c u')
  have ne: "\<forall>e\<in>set extensions. e \<noteq> []" using extensions_word by blast
  have wb: "\<And>e. e \<in> set extensions \<Longrightarrow> wordBefore (Some (last e))"
    using extensions_word by (auto simp: wordBefore_def list_all_iff)
  have "concat (map (matches WordBoundary)
          (map (\<lambda>e. (Some (last e), drop (length e) u')) (filter (\<lambda>e. prefix e u') es)))
      = map (\<lambda>e. (Some (last e), drop (length e) u'))
          (filter (\<lambda>e. prefix e u' \<and> \<not> wordAfter (drop (length e) u')) es)"
    if "set es \<subseteq> set extensions" for es
    using that by (induction es) (auto simp: wb)
  then show ?thesis
    using Cons by (simp add: extensionTail_def matches_alts [OF ne])
qed

lemma extensionTail_sound:
  assumes "(q, r) \<in> set (matches extensionTail (p, u))"
  shows "\<exists>e\<in>set extensions. u = CHR ''.'' # e @ r \<and> \<not> wordAfter r \<and> q = Some (last e)"
  using assms
  by (auto simp: matches_extensionTail prefix_def split: list.splits if_splits)

lemma extensionTail_complete:
  assumes "e \<in> set extensions" "\<not> wordAfter r"
  shows "(Some (last e), r) \<in> set (matches extensionTail (p, CHR ''.'' # e @ r))"
  using assms by (auto simp: matches_extensionTail image_iff intro!: bexI [of _ e])

lemma extension_unique:
  assumes "e \<in> set extensions" "e' \<in> set extensions" "e @ r = e' @ r'"
    "\<not> wordAfter r" "\<not> wordAfter r'"
  shows "r = r'"
proof -
  from assms(3) consider w where "e = e' @ w" "w @ r = r'" | w where "e @ w = e'" "r = w @ r'"
    by (auto simp: append_eq_append_conv2)
  then show ?thesis
  proof cases
    case 1
    show ?thesis
    proof (cases w)
      case Nil
      with 1 show ?thesis by simp
    next
      case (Cons x w')
      then have "x \<in> set e" using 1 by simp
      then have "wordChar x" using extensions_word [OF assms(1)] by (simp add: list_all_iff)
      then have "wordAfter r'" using 1 Cons by (auto simp: wordAfter_def)
      with assms(5) show ?thesis by simp
    qed
  next
    case 2
    show ?thesis
    proof (cases w)
      case Nil
      with 2 show ?thesis by simp
    next
      case (Cons x w')
      then have "x \<in> set e'" using 2 by auto
      then have "wordChar x" using extensions_word [OF assms(2)] by (simp add: list_all_iff)
      then have "wordAfter r" using 2 Cons by (auto simp: wordAfter_def)
      with assms(4) show ?thesis by simp
    qed
  qed
qed

lemma pathClass_dot [simp]: "pathClass (CHR ''.'')" and pathClass_slash [simp]: "pathClass (CHR ''/'')"
  by (simp_all add: pathClass_def)

lemma not_wordChar_dot [simp]: "\<not> wordChar (CHR ''.'')"
  by (simp add: wordChar_def)

lemma withExtension_sound:
  "(q, r) \<in> set (matches withExtension (p, s)) \<Longrightarrow>
   \<exists>u e. s = u @ CHR ''.'' # e @ r \<and> list_all pathClass u \<and> e \<in> set extensions
         \<and> \<not> wordAfter r \<and> q = Some (last e)"
proof (induction s arbitrary: p)
  case Nil
  then show ?case
    using extensionTail_sound [of q r p "[]"] by (simp only: matches_withExtension_Nil) auto
next
  case (Cons c cs)
  from Cons.prems consider
      "pathClass c" "(q, r) \<in> set (matches withExtension (Some c, cs))"
    | "(q, r) \<in> set (matches extensionTail (p, c # cs))"
    by (auto simp: matches_withExtension_Cons split: if_splits)
  then show ?case
  proof cases
    case 1
    from Cons.IH [OF 1(2)] obtain u e where
      "cs = u @ CHR ''.'' # e @ r" "list_all pathClass u" "e \<in> set extensions"
      "\<not> wordAfter r" "q = Some (last e)" by blast
    then have "c # cs = (c # u) @ CHR ''.'' # e @ r \<and> list_all pathClass (c # u)
        \<and> e \<in> set extensions \<and> \<not> wordAfter r \<and> q = Some (last e)"
      using 1(1) by simp
    then show ?thesis by blast
  next
    case 2
    from extensionTail_sound [OF 2] obtain e where
      "e \<in> set extensions" "c # cs = CHR ''.'' # e @ r" "\<not> wordAfter r" "q = Some (last e)"
      by blast
    then have "c # cs = [] @ CHR ''.'' # e @ r \<and> list_all pathClass []
        \<and> e \<in> set extensions \<and> \<not> wordAfter r \<and> q = Some (last e)"
      by simp
    then show ?thesis by blast
  qed
qed

lemma withExtension_longest:
  assumes "list_all pathClass u" "e \<in> set extensions" "\<not> wordAfter r"
  shows "matches withExtension (p, u @ CHR ''.'' # e @ r) \<noteq> [] \<and>
         length (snd (hd (matches withExtension (p, u @ CHR ''.'' # e @ r)))) \<le> length r"
  using assms(1)
proof (induction u arbitrary: p)
  case Nil
  let ?s = "CHR ''.'' # e @ r"
  have split: "matches withExtension (p, ?s) =
      matches withExtension (Some (CHR ''.''), e @ r) @ matches extensionTail (p, ?s)"
    by (simp only: matches_withExtension_Cons pathClass_dot if_True)
  have tail: "(Some (last e), r) \<in> set (matches extensionTail (p, ?s))"
    using assms(2,3) by (rule extensionTail_complete)
  show ?case
  proof (cases "matches withExtension (Some (CHR ''.''), e @ r) = []")
    case True
    then have eq: "matches withExtension (p, ?s) = matches extensionTail (p, ?s)"
      using split by simp
    from tail have ne: "matches extensionTail (p, ?s) \<noteq> []" by auto
    then have "hd (matches extensionTail (p, ?s)) \<in> set (matches extensionTail (p, ?s))"
      by simp
    then obtain q' r' where h: "hd (matches extensionTail (p, ?s)) = (q', r')"
      "(q', r') \<in> set (matches extensionTail (p, ?s))" by (metis surj_pair)
    from extensionTail_sound [OF h(2)] obtain e' where
      "e' \<in> set extensions" "?s = CHR ''.'' # e' @ r'" "\<not> wordAfter r'" by blast
    then have "r = r'" using extension_unique [OF assms(2) _ _ assms(3)] by auto
    then show ?thesis using eq ne h(1) by simp
  next
    case False
    then have "hd (matches withExtension (p, ?s)) \<in> set (matches withExtension (Some (CHR ''.''), e @ r))"
      using split by simp
    then obtain q' r' where h: "hd (matches withExtension (p, ?s)) = (q', r')"
      "(q', r') \<in> set (matches withExtension (Some (CHR ''.''), e @ r))" by (metis surj_pair)
    from withExtension_sound [OF h(2)] obtain u' e' where
      ue: "e @ r = u' @ CHR ''.'' # e' @ r'" by blast
    have "length r' \<le> length r"
    proof -
      from ue consider w where "e = u' @ w" "w @ r = CHR ''.'' # e' @ r'"
        | w where "e @ w = u'" "r = w @ CHR ''.'' # e' @ r'"
        by (auto simp: append_eq_append_conv2)
      then show ?thesis
      proof cases
        case 1
        show ?thesis
        proof (cases w)
          case Nil
          with 1 show ?thesis by simp
        next
          case (Cons x w')
          with 1 have "CHR ''.'' \<in> set e" by auto
          then have "wordChar (CHR ''.'')"
            using extensions_word [OF assms(2)] by (auto simp: list_all_iff)
          then show ?thesis by simp
        qed
      next
        case 2
        then show ?thesis by simp
      qed
    qed
    then show ?thesis using split False h(1) by simp
  qed
next
  case (Cons c u)
  then have c: "pathClass c" and u: "list_all pathClass u" by simp_all
  let ?s = "u @ CHR ''.'' # e @ r"
  have "matches withExtension (p, c # ?s) =
      matches withExtension (Some c, ?s) @ matches extensionTail (p, c # ?s)"
    using c by (simp only: matches_withExtension_Cons if_True)
  then show ?case using Cons.IH [OF u, of "Some c"] by simp
qed

lemma wordChar_pathClass: "wordChar c \<Longrightarrow> pathClass c"
  by (simp add: pathClass_def)

lemma matches_Plus_Class:
  "matches (Plus (Class P)) (q, u) =
     (case u of [] \<Rightarrow> [] | c # cs \<Rightarrow> if P c then matches (Star (Class P)) (Some c, cs) else [])"
  by (cases u) (simp_all add: Plus_def)

lemma matches_explicitRelative:
  "matches explicitRelative (p, s) =
     (if prefix ''./'' s then matches (Plus (Class pathClass)) (Some (CHR ''/''), drop 2 s) else [])
     @ (if prefix ''../'' s then matches (Plus (Class pathClass)) (Some (CHR ''/''), drop 3 s) else [])"
  by (simp add: explicitRelative_def eval_nat_numeral)

lemma Plus_Class_hd:
  assumes "matches (Plus (Class P)) (q, u) \<noteq> []"
  shows "takeWhile P u \<noteq> [] \<and>
         hd (matches (Plus (Class P)) (q, u)) = (Some (last (takeWhile P u)), dropWhile P u)"
proof (cases u)
  case Nil
  with assms show ?thesis by (simp add: matches_Plus_Class)
next
  case (Cons c cs)
  with assms have c: "P c" by (auto simp: matches_Plus_Class split: if_splits)
  then have "matches (Plus (Class P)) (q, u) = matches (Star (Class P)) (Some c, cs)"
    using Cons by (simp add: matches_Plus_Class)
  then show ?thesis
    using matches_Star_Class_hd [of P "Some c" cs] c Cons by (simp)
qed

lemma explicitRelative_hd:
  assumes "matches explicitRelative (p, s) \<noteq> []"
  shows "hd (matches explicitRelative (p, s))
           = (Some (last (takeWhile pathClass s)), dropWhile pathClass s)
         \<and> dotToken (takeWhile pathClass s)"
proof -
  consider "prefix ''./'' s" | "\<not> prefix ''./'' s" "prefix ''../'' s"
    using assms by (cases "prefix ''./'' s"; cases "prefix ''../'' s")
      (simp_all add: matches_explicitRelative)
  then show ?thesis
  proof cases
    case 1
    then obtain u where s: "s = CHR ''.'' # CHR ''/'' # u" by (auto simp: prefix_def)
    then have m: "matches explicitRelative (p, s) = matches (Plus (Class pathClass)) (Some (CHR ''/''), u)"
      by (simp add: matches_explicitRelative)
    with assms have "matches (Plus (Class pathClass)) (Some (CHR ''/''), u) \<noteq> []" by simp
    from Plus_Class_hd [OF this] m s show ?thesis
      by (simp add: dotToken_def list_all_iff) (auto dest: set_takeWhileD)
  next
    case 2
    then obtain u where s: "s = CHR ''.'' # CHR ''.'' # CHR ''/'' # u" by (auto simp: prefix_def)
    then have m: "matches explicitRelative (p, s) = matches (Plus (Class pathClass)) (Some (CHR ''/''), u)"
      by (simp add: matches_explicitRelative)
    with assms have "matches (Plus (Class pathClass)) (Some (CHR ''/''), u) \<noteq> []" by simp
    from Plus_Class_hd [OF this] m s show ?thesis
      by (simp add: dotToken_def list_all_iff) (auto dest: set_takeWhileD)
  qed
qed

lemma explicitRelative_complete:
  assumes "dotToken t"
  shows "matches explicitRelative (p, t @ r) \<noteq> []"
proof -
  from assms have all: "list_all pathClass t"
    and pre: "(prefix ''./'' t \<and> 2 < length t) \<or> (prefix ''../'' t \<and> 3 < length t)"
    by (simp_all add: dotToken_def)
  have "(\<exists>c cs. t = CHR ''.'' # CHR ''/'' # c # cs)
      \<or> (\<exists>c cs. t = CHR ''.'' # CHR ''.'' # CHR ''/'' # c # cs)"
  proof -
    from pre show ?thesis
    proof
      assume a: "prefix ''./'' t \<and> 2 < length t"
      then obtain u where u: "t = CHR ''.'' # CHR ''/'' # u" by (auto simp: prefix_def)
      with a have "u \<noteq> []" by auto
      then obtain c cs where "u = c # cs" by (cases u) auto
      with u show ?thesis by blast
    next
      assume a: "prefix ''../'' t \<and> 3 < length t"
      then obtain u where u: "t = CHR ''.'' # CHR ''.'' # CHR ''/'' # u" by (auto simp: prefix_def)
      with a have "u \<noteq> []" by auto
      then obtain c cs where "u = c # cs" by (cases u) auto
      with u show ?thesis by blast
    qed
  qed
  then consider c cs where "t = CHR ''.'' # CHR ''/'' # c # cs"
    | c cs where "t = CHR ''.'' # CHR ''.'' # CHR ''/'' # c # cs"
    by blast
  then show ?thesis
  proof cases
    case 1
    then have c: "pathClass c" using all by simp
    have "matches explicitRelative (p, t @ r) = matches (Star (Class pathClass)) (Some c, cs @ r)"
      unfolding 1 using c
      by (simp add: matches_explicitRelative matches_Plus_Class)
    then show ?thesis using matches_Star_Class_hd [of pathClass "Some c" "cs @ r"] by simp
  next
    case 2
    then have c: "pathClass c" using all by simp
    have "matches explicitRelative (p, t @ r) = matches (Star (Class pathClass)) (Some c, cs @ r)"
      unfolding 2 using c
      by (simp add: matches_explicitRelative matches_Plus_Class)
    then show ?thesis using matches_Star_Class_hd [of pathClass "Some c" "cs @ r"] by simp
  qed
qed

lemma pathToken_pathClass: "pathToken t r \<Longrightarrow> list_all pathClass t"
  by (auto simp: pathToken_def dotToken_def extToken_def)

lemma pathToken_nonempty: "pathToken t r \<Longrightarrow> t \<noteq> []"
  by (auto simp: pathToken_def dotToken_def extToken_def list_ex_iff suffix_def)

lemma extToken_iff:
  "extToken t \<longleftrightarrow> (\<exists>u e. t = u @ CHR ''.'' # e \<and> list_all pathClass u \<and> e \<in> set extensions)"
proof
  assume "extToken t"
  then obtain e where e: "e \<in> set extensions" "suffix (CHR ''.'' # e) t" and all: "list_all pathClass t"
    by (auto simp: extToken_def list_ex_iff)
  then obtain u where "t = u @ CHR ''.'' # e" by (auto simp: suffix_def)
  with e all show "\<exists>u e. t = u @ CHR ''.'' # e \<and> list_all pathClass u \<and> e \<in> set extensions"
    by auto
next
  assume "\<exists>u e. t = u @ CHR ''.'' # e \<and> list_all pathClass u \<and> e \<in> set extensions"
  then obtain u e where t: "t = u @ CHR ''.'' # e" "list_all pathClass u" "e \<in> set extensions"
    by blast
  have "list_all pathClass e"
    using extensions_word [OF t(3)] by (auto simp: list_all_iff wordChar_pathClass)
  moreover have "suffix (CHR ''.'' # e) t" using t(1) by (simp add: suffix_def)
  ultimately show "extToken t" using t by (auto simp: extToken_def list_ex_iff)
qed

lemma pathPattern_no_match:
  assumes "matches pathPattern (p, s) = []" "s = t @ r"
  shows "\<not> pathToken t r"
proof
  assume tok: "pathToken t r"
  from assms(1) have d: "matches explicitRelative (p, s) = []"
    and x: "matches withExtension (p, s) = []"
    by (simp_all add: pathPattern_def)
  from d explicitRelative_complete [of t p r] assms(2) have "\<not> dotToken t" by auto
  with tok have "extToken t" "\<not> wordAfter r" by (auto simp: pathToken_def)
  then obtain u e where "t = u @ CHR ''.'' # e" "list_all pathClass u" "e \<in> set extensions"
    by (auto simp: extToken_iff)
  with withExtension_longest [of u e r p] \<open>\<not> wordAfter r\<close> x assms(2) show False by simp
qed

lemma pathPattern_match:
  assumes "matches pathPattern (p, s) = (q, r) # ms"
  shows "\<exists>t. s = t @ r \<and> pathToken t r \<and> q = Some (last t)
           \<and> (\<forall>t' r'. s = t' @ r' \<and> pathToken t' r' \<longrightarrow> length t' \<le> length t)"
proof (cases "matches explicitRelative (p, s) = []")
  case False
  then have "hd (matches pathPattern (p, s)) = hd (matches explicitRelative (p, s))"
    by (simp add: pathPattern_def)
  with assms explicitRelative_hd [OF False]
  have q: "q = Some (last (takeWhile pathClass s))" and r: "r = dropWhile pathClass s"
    and d: "dotToken (takeWhile pathClass s)" by simp_all
  have "length t' \<le> length (takeWhile pathClass s)" if "s = t' @ r'" "pathToken t' r'" for t' r'
  proof -
    have "list_all pathClass t'" using that(2) by (rule pathToken_pathClass)
    then have "takeWhile pathClass s = t' @ takeWhile pathClass r'"
      using that(1) by (simp add: list_all_iff)
    then show ?thesis by simp
  qed
  moreover have "s = takeWhile pathClass s @ r" using r by simp
  moreover have "pathToken (takeWhile pathClass s) r" using d by (simp add: pathToken_def)
  ultimately show ?thesis using q by blast
next
  case True
  then have m: "matches withExtension (p, s) = (q, r) # ms"
    using assms by (simp add: pathPattern_def)
  then have "(q, r) \<in> set (matches withExtension (p, s))" by simp
  from withExtension_sound [OF this] obtain u e where
    ue: "s = u @ CHR ''.'' # e @ r" "list_all pathClass u" "e \<in> set extensions"
    "\<not> wordAfter r" "q = Some (last e)" by blast
  define t where "t = u @ CHR ''.'' # e"
  have e: "e \<noteq> []" using extensions_word [OF ue(3)] by simp
  have "extToken t" using ue(2,3) by (auto simp: extToken_iff t_def)
  then have tok: "pathToken t r" using ue(4) by (simp add: pathToken_def)
  have "length t' \<le> length t" if "s = t' @ r'" "pathToken t' r'" for t' r'
  proof -
    from True explicitRelative_complete [of t' p r'] that(1) have "\<not> dotToken t'" by auto
    with that(2) have "extToken t'" "\<not> wordAfter r'" by (auto simp: pathToken_def)
    then obtain u' e' where t': "t' = u' @ CHR ''.'' # e'" "list_all pathClass u'"
      "e' \<in> set extensions" by (auto simp: extToken_iff)
    from withExtension_longest [OF t'(2,3) \<open>\<not> wordAfter r'\<close>, of p] m that(1) t'(1)
    have "length r \<le> length r'" by simp
    moreover have "length s = length t + length r" using ue(1) by (simp add: t_def)
    moreover have "length s = length t' + length r'" using that(1) by simp
    ultimately show ?thesis by simp
  qed
  moreover have "s = t @ r" using ue(1) by (simp add: t_def)
  moreover have "q = Some (last t)" using ue(5) e by (simp add: t_def)
  ultimately show ?thesis using tok by blast
qed

lemma find_rev_prefixes_None:
  "find P (rev (prefixes s)) = None \<longleftrightarrow> (\<forall>t. prefix t s \<longrightarrow> \<not> P t)"
  by (auto simp: find_None_iff)

lemma find_rev_prefixes_Some:
  assumes "prefix t s" "P t" "\<And>t'. prefix t' s \<Longrightarrow> P t' \<Longrightarrow> length t' \<le> length t"
  shows "find P (rev (prefixes s)) = Some t"
  using assms
proof (induction s rule: rev_induct)
  case Nil
  then show ?case by simp
next
  case (snoc x ys)
  show ?case
  proof (cases "P (ys @ [x])")
    case True
    then have "length (ys @ [x]) \<le> length t" using snoc.prems(3) by blast
    moreover have "length t \<le> length (ys @ [x])" using snoc.prems(1) by (rule prefix_length_le)
    ultimately have l: "length t = length (ys @ [x])" by simp
    from snoc.prems(1) obtain zs where z: "ys @ [x] = t @ zs" by (auto simp: prefix_def)
    then have "length (ys @ [x]) = length t + length zs" by (metis length_append)
    with l have "zs = []" by simp
    with z have "t = ys @ [x]" by simp
    then show ?thesis using True by simp
  next
    case False
    with snoc.prems(1,2) have "prefix t ys" by (auto simp: prefix_snoc)
    then have "find P (rev (prefixes ys)) = Some t"
      using snoc.prems(2,3) by (intro snoc.IH) (auto simp: prefix_snoc)
    then show ?thesis using False by simp
  qed
qed

lemma longestToken_None:
  assumes "matches pathPattern (p, s) = []"
  shows "longestToken s = None"
  unfolding longestToken_def find_rev_prefixes_None
proof (intro allI impI)
  fix t assume "prefix t s"
  then have "s = t @ drop (length t) s" by (auto simp: prefix_def)
  then show "\<not> pathToken t (drop (length t) s)"
    using pathPattern_no_match [OF assms] by blast
qed

lemma longestToken_Some:
  assumes "matches pathPattern (p, s) = (q, r) # ms"
  shows "\<exists>t. longestToken s = Some t \<and> s = t @ r \<and> t \<noteq> [] \<and> q = Some (last t)"
proof -
  from pathPattern_match [OF assms] obtain t where
    t: "s = t @ r" "pathToken t r" "q = Some (last t)"
    "\<And>t' r'. s = t' @ r' \<Longrightarrow> pathToken t' r' \<Longrightarrow> length t' \<le> length t" by blast
  have "find (\<lambda>t. pathToken t (drop (length t) s)) (rev (prefixes s)) = Some t"
  proof (rule find_rev_prefixes_Some)
    show "prefix t s" using t(1) by simp
    show "pathToken t (drop (length t) s)" using t(1,2) by simp
    fix t' assume "prefix t' s" "pathToken t' (drop (length t') s)"
    moreover from this have "s = t' @ drop (length t') s" by (auto simp: prefix_def)
    ultimately show "length t' \<le> length t" using t(4) by blast
  qed
  then show ?thesis using t pathToken_nonempty [OF t(2)] by (auto simp: longestToken_def)
qed

lemma replaceFrom_pathPattern:
  "replaceFrom pathPattern repl (p, s) = replaceTokens repl s"
proof (induction s arbitrary: p rule: length_induct)
  case (1 s)
  show ?case
  proof (cases "matches pathPattern (p, s)")
    case Nil
    then have none: "longestToken s = None" by (rule longestToken_None)
    show ?thesis
    proof (cases s)
      case Nil
      then show ?thesis
        using \<open>matches pathPattern (p, s) = []\<close> none
        by (subst replaceFrom.simps, subst replaceTokens.simps) simp
    next
      case (Cons c cs)
      then have "replaceFrom pathPattern repl (Some c, cs) = replaceTokens repl cs"
        using 1 by simp
      then show ?thesis
        using \<open>matches pathPattern (p, s) = []\<close> none Cons
        by (subst replaceFrom.simps, subst replaceTokens.simps) simp
    qed
  next
    case (Cons m ms)
    obtain q r where m: "m = (q, r)" by (cases m)
    from longestToken_Some [OF Cons [unfolded m]] obtain t where
      t: "longestToken s = Some t" "s = t @ r" "t \<noteq> []" "q = Some (last t)" by blast
    then have len: "length r < length s" by simp
    then have "replaceFrom pathPattern repl (q, r) = replaceTokens repl r" using 1 by simp
    moreover have "take (length s - length r) s = t" "drop (length t) s = r" using t(2) by simp_all
    ultimately show ?thesis
      using Cons m t(1) len
      by (subst replaceFrom.simps, subst replaceTokens.simps) simp
  qed
qed

lemma spaceRunes_not_pathClass:
  "w \<in> set spaceRunes \<Longrightarrow> \<not> pathClass (hd w) \<and> \<not> pathClass (last w)"
  unfolding spaceRunes_def pathClass_def wordChar_def by auto

lemma TrimSpace_pathClass:
  assumes "t \<noteq> []" "list_all pathClass t"
  shows "TrimSpace t = t"
proof -
  have "\<forall>w\<in>set spaceRunes. \<not> prefix w t"
  proof (intro ballI notI)
    fix w assume w: "w \<in> set spaceRunes" "prefix w t"
    then have "w \<noteq> []" using spaceRunes_nonempty by blast
    with w(2) have "hd w = hd t" by (auto simp: prefix_def)
    moreover have "pathClass (hd t)" using assms by (cases t) simp_all
    ultimately show False using spaceRunes_not_pathClass [OF w(1)] by simp
  qed
  then have l: "trimLeftSpace t = t" by (rule trimLeftSpace_no_rune)
  have "\<forall>w\<in>set spaceRunes. \<not> suffix w t"
  proof (intro ballI notI)
    fix w assume w: "w \<in> set spaceRunes" "suffix w t"
    then have "w \<noteq> []" using spaceRunes_nonempty by blast
    with w(2) have "last w = last t" by (auto simp: suffix_def)
    moreover have "pathClass (last t)" using assms by (simp add: list_all_iff)
    ultimately show False using spaceRunes_not_pathClass [OF w(1)] by simp
  qed
  then have "trimRightSpace t = t" by (rule trimRightSpace_no_rune)
  with l show ?thesis by (simp add: TrimSpace_def)
qed

lemma longestToken_token:
  assumes "longestToken s = Some t"
  shows "t \<noteq> [] \<and> list_all pathClass t \<and> prefix t s"
proof -
  from assms obtain i where "i < length (rev (prefixes s))" "t = rev (prefixes s) ! i"
    "pathToken t (drop (length t) s)"
    by (auto simp: longestToken_def find_Some_iff)
  then have "pathToken t (drop (length t) s)" "t \<in> set (prefixes s)"
    using nth_mem [of i "rev (prefixes s)"] by simp_all
  then show ?thesis using pathToken_nonempty pathToken_pathClass by auto
qed

lemma replaceTokens_cong:
  assumes "\<And>t. t \<noteq> [] \<Longrightarrow> list_all pathClass t \<Longrightarrow> f t = g t"
  shows "replaceTokens f s = replaceTokens g s"
proof (induction s rule: length_induct)
  case (1 s)
  show ?case
  proof (cases "longestToken s")
    case None
    show ?thesis
    proof (cases s)
      case Nil
      then show ?thesis using None by (subst (1 2) replaceTokens.simps) simp
    next
      case (Cons c cs)
      then have "replaceTokens f cs = replaceTokens g cs" using 1 by simp
      then show ?thesis using None Cons by (subst (1 2) replaceTokens.simps) simp
    qed
  next
    case (Some t)
    from longestToken_token [OF Some] have t: "t \<noteq> []" "list_all pathClass t" "prefix t s"
      by simp_all
    then have "length (drop (length t) s) < length s" by (cases t) (auto simp: prefix_def)
    then have "replaceTokens f (drop (length t) s) = replaceTokens g (drop (length t) s)"
      using 1 by simp
    then show ?thesis using Some assms [OF t(1,2)] by (subst (1 2) replaceTokens.simps) simp
  qed
qed

subsection \<open>Cleaning paths\<close>

lemma normalStack_Nil: "normalStack rooted []"
  by (simp add: normalStack_def)

lemma normalStack_tl: "normalStack rooted (e # es) \<Longrightarrow> normalStack rooted es"
proof -
  assume a: "normalStack rooted (e # es)"
  then obtain reals dots where rd: "e # es = reals @ dots" "''..'' \<notin> set reals" "set dots \<subseteq> {''..''}"
    by (auto simp: normalStack_def)
  have "\<exists>reals' dots'. es = reals' @ dots' \<and> ''..'' \<notin> set reals' \<and> set dots' \<subseteq> {''..''}"
  proof (cases reals)
    case Nil
    with rd have "es = [] @ tl dots" "set (tl dots) \<subseteq> {''..''}"
      by (auto simp: subset_iff dest: list.set_sel(2) [rotated])
    then show ?thesis by (metis empty_iff empty_set)
  next
    case (Cons r rs)
    with rd have "es = rs @ dots" "''..'' \<notin> set rs" by auto
    with rd(3) show ?thesis by blast
  qed
  with a show ?thesis by (auto simp: normalStack_def)
qed

lemma normalStack_dots:
  assumes "normalStack rooted (''..'' # es)"
  shows "\<not> rooted \<and> (es = [] \<or> hd es = ''..'')"
proof -
  from assms obtain reals dots where rd: "''..'' # es = reals @ dots" "''..'' \<notin> set reals"
    "set dots \<subseteq> {''..''}"
    by (auto simp: normalStack_def)
  then have "reals = []" by (cases reals) auto
  with rd have "set es \<subseteq> {''..''}" by (cases dots) auto
  then have "es = [] \<or> hd es = ''..''" by (cases es) auto
  moreover have "\<not> rooted" using assms by (auto simp: normalStack_def)
  ultimately show ?thesis by simp
qed

lemma normalStack_push:
  assumes "normalStack rooted out" "elem \<noteq> []" "elem \<noteq> ''.''" "elem \<noteq> ''..''"
    "CHR ''/'' \<notin> set elem"
  shows "normalStack rooted (elem # out)"
proof -
  from assms(1) obtain reals dots where "out = reals @ dots" "''..'' \<notin> set reals"
    "set dots \<subseteq> {''..''}"
    by (auto simp: normalStack_def)
  then have "elem # out = (elem # reals) @ dots \<and> ''..'' \<notin> set (elem # reals)
      \<and> set dots \<subseteq> {''..''}"
    using assms(4) by auto
  then have "\<exists>reals' dots'. elem # out = reals' @ dots' \<and> ''..'' \<notin> set reals'
      \<and> set dots' \<subseteq> {''..''}" by blast
  then show ?thesis using assms by (auto simp: normalStack_def)
qed

lemma normalStack_push_dots:
  assumes "normalStack rooted out" "\<not> rooted" "out = [] \<or> hd out = ''..''"
  shows "normalStack rooted (''..'' # out)"
proof -
  from assms(1) obtain reals dots where rd: "out = reals @ dots" "''..'' \<notin> set reals"
    "set dots \<subseteq> {''..''}"
    by (auto simp: normalStack_def)
  have "reals = []"
  proof (cases reals)
    case (Cons r rs)
    with rd assms(3) show ?thesis by auto
  qed simp
  with rd have "''..'' # out = [] @ (''..'' # dots) \<and> ''..'' \<notin> set ([] :: string list)
      \<and> set (''..'' # dots) \<subseteq> {''..''}" by auto
  then have "\<exists>reals' dots'. ''..'' # out = reals' @ dots' \<and> ''..'' \<notin> set reals'
      \<and> set dots' \<subseteq> {''..''}" by blast
  then show ?thesis using assms(1,2) by (auto simp: normalStack_def)
qed

lemma normalStack_cleanStep:
  assumes "normalStack rooted out" "CHR ''/'' \<notin> set elem"
  shows "normalStack rooted (cleanStep rooted out elem)"
proof -
  consider "elem = [] \<or> elem = ''.''" | "elem = ''..''" "out = []"
    | e es where "elem = ''..''" "out = e # es" "e = ''..''"
    | e es where "elem = ''..''" "out = e # es" "e \<noteq> ''..''"
    | "elem \<noteq> []" "elem \<noteq> ''.''" "elem \<noteq> ''..''"
    by (cases out) auto
  then show ?thesis
  proof cases
    case 1
    then show ?thesis using assms(1) by (auto simp: cleanStep_def)
  next
    case 2
    then show ?thesis
      using normalStack_push_dots [of rooted "[]"] by (auto simp: normalStack_Nil cleanStep_def)
  next
    case 3
    then have "normalStack rooted (''..'' # out)"
      using assms(1) normalStack_dots [of rooted es]
      by (intro normalStack_push_dots) auto
    then show ?thesis using 3 by (simp add: cleanStep_def)
  next
    case 4
    then show ?thesis using assms(1) normalStack_tl by (auto simp: cleanStep_def)
  next
    case 5
    then have "normalStack rooted (elem # out)"
      using assms by (intro normalStack_push) auto
    then show ?thesis using 5 by (simp add: cleanStep_def)
  qed
qed

lemma normalStack_foldl:
  "normalStack rooted out \<Longrightarrow> \<forall>e\<in>set elems. CHR ''/'' \<notin> set e \<Longrightarrow>
   normalStack rooted (foldl (cleanStep rooted) out elems)"
  by (induction elems arbitrary: out) (simp_all add: normalStack_cleanStep)

lemma foldl_cleanStep_replay:
  "normalStack rooted out \<Longrightarrow> foldl (cleanStep rooted) [] (rev out) = out"
proof (induction out)
  case Nil
  then show ?case by simp
next
  case (Cons e es)
  have es: "foldl (cleanStep rooted) [] (rev es) = es"
    using Cons.IH normalStack_tl [OF Cons.prems] by simp
  have e: "e \<noteq> []" "e \<noteq> ''.''" using Cons.prems by (auto simp: normalStack_def)
  have step: "foldl (cleanStep rooted) [] (rev (e # es)) = cleanStep rooted es e"
    using es by simp
  have "cleanStep rooted es e = e # es"
  proof (cases "e = ''..''")
    case True
    with Cons.prems have "\<not> rooted \<and> (es = [] \<or> hd es = ''..'')"
      using normalStack_dots by blast
    then show ?thesis using True by (cases es) (auto simp: cleanStep_def)
  next
    case False
    then show ?thesis using e by (simp add: cleanStep_def)
  qed
  with step show ?case by simp
qed

lemma Join_Cons_nonempty: "x \<noteq> [] \<Longrightarrow> Join (x # xs) sep \<noteq> [] \<and> hd (Join (x # xs) sep) = hd x"
  by (cases xs) auto

lemma Clean_idem: "Clean (Clean path) = Clean path"
proof (cases "path = []")
  case True
  then show ?thesis by (simp add: Clean_def cleanStep_def)
next
  case False
  define rooted where "rooted = (hd path = CHR ''/'')"
  define out where "out = foldl (cleanStep rooted) [] (Split path (CHR ''/''))"
  have ns: "normalStack rooted out"
    unfolding out_def
    by (rule normalStack_foldl) (auto simp: normalStack_Nil dest: Split_no_sep)
  have replay: "foldl (cleanStep rooted) [] (rev out) = out"
    using ns by (rule foldl_cleanStep_replay)
  have nosep: "\<forall>l\<in>set (rev out). CHR ''/'' \<notin> set l" using ns by (auto simp: normalStack_def)
  have sj: "out \<noteq> [] \<Longrightarrow> Split (Join (rev out) ''/'') (CHR ''/'') = rev out"
    using Split_Join [of "rev out" "CHR ''/''"] nosep by simp
  show ?thesis
  proof (cases rooted)
    case True
    then have c: "Clean path = ''/'' @ Join (rev out) ''/''"
      using False by (simp add: Clean_def rooted_def out_def Let_def)
    show ?thesis
    proof (cases "out = []")
      case True
      then show ?thesis using c by (simp add: Clean_def cleanStep_def)
    next
      case False
      have "cleanStep True [] [] = []" by (simp add: cleanStep_def)
      then show ?thesis
        using c sj [OF False] replay \<open>rooted\<close> by (simp add: Clean_def Let_def)
    qed
  next
    case nr: False
    show ?thesis
    proof (cases "out = []")
      case True
      then have "Clean path = ''.''"
        using False nr by (simp add: Clean_def rooted_def out_def Let_def)
      then show ?thesis by (simp add: Clean_def cleanStep_def)
    next
      case ne: False
      then have c: "Clean path = Join (rev out) ''/''"
        using False nr by (simp add: Clean_def rooted_def out_def Let_def)
      obtain x xs where x: "rev out = x # xs" using ne by (cases "rev out") auto
      then have "x \<in> set out" by (metis list.set_intros(1) set_rev)
      then have xn: "x \<noteq> []" "CHR ''/'' \<notin> set x" using ns by (auto simp: normalStack_def)
      then have "hd x \<noteq> CHR ''/''" by (cases x) auto
      with Join_Cons_nonempty [OF xn(1), of xs "''/''"] x
      have j: "Join (rev out) ''/'' \<noteq> []" "hd (Join (rev out) ''/'') \<noteq> CHR ''/''" by simp_all
      show ?thesis
        using c j sj [OF ne] replay nr ne by (simp add: Clean_def Let_def)
    qed
  qed
qed

lemma Clean_dot_slash:
  assumes "t \<noteq> []" "\<not> IsAbs t"
  shows "Clean (''./'' @ t) = Clean t"
proof -
  have "hd t \<noteq> CHR ''/''" using assms by (cases t) (auto simp: IsAbs_def)
  moreover have "Split (''./'' @ t) (CHR ''/'') = ''.'' # Split t (CHR ''/'')" by simp
  ultimately show ?thesis using assms(1) by (simp add: Clean_def Let_def cleanStep_def)
qed

lemma filepathJoin_empty_base: "t \<noteq> [] \<Longrightarrow> filepathJoin [[], t] = Clean t"
  by (cases t) (simp_all add: filepathJoin_def)

lemma filepathJoin_base:
  "baseDir \<noteq> [] \<Longrightarrow> filepathJoin [baseDir, t] = Clean (baseDir @ ''/'' @ t)"
  by (cases baseDir) (simp_all add: filepathJoin_def)

subsection \<open>Resolving relative paths\<close>

lemma resolveRelativePaths_eq:
  "resolveRelativePaths c prompt baseDir =
     Inr (replaceTokens (\<lambda>t. if IsAbs t then t else Clean (filepathJoin [baseDir, t])) prompt)"
proof -
  have "replaceTokens
      (\<lambda>match. let match = TrimSpace match
         in if match = [] then match
            else if IsAbs match then match
            else let resolvedPath = filepathJoin [baseDir, match];
                     cleanPath = Clean resolvedPath
                 in cleanPath) prompt
    = replaceTokens (\<lambda>t. if IsAbs t then t else Clean (filepathJoin [baseDir, t])) prompt"
    by (rule replaceTokens_cong) (simp add: TrimSpace_pathClass)
  then show ?thesis
    by (simp add: resolveRelativePaths_def ReplaceAllStringFunc_def replaceFrom_pathPattern)
qed

subsection \<open>Execute\<close>

lemma executeWith_client: "snd (snd (executeWith os c prompt t)) = c"
  by (simp add: executeWith_def Let_def split: prod.split sum.split)

section \<open>The claims\<close>

text \<open>
  C1 (as amended). When \<open>parseGeminiOutput\<close> succeeds, its result is the input's
  surviving lines in their original order, joined by line feeds, each line kept verbatim
  except that the white space before the first surviving line and after the last one is
  trimmed. A line survives unless its trimmed content is empty or contains one of the
  seven filter phrases as a substring.
\<close>

theorem parseGeminiOutput_surviving_lines:
  assumes "parseGeminiOutput c out = Inr r"
  shows "r = Join (trimOuter (filter keepLine (Split out newline))) [newline]
       \<and> r = TrimSpace (Join (filter keepLine (Split out newline)) [newline])
       \<and> (\<forall>line. keepLine line \<longleftrightarrow>
            \<not> (TrimSpace line = [] \<or>
               (\<exists>p\<in>set [''Loaded cached credentials.'', ''Loading cached credentials'',
                          ''Authenticating'', ''Authentication successful'',
                          ''Connected to Gemini API'', ''Using cached token'', ''Token refreshed''].
                  \<exists>pre post. TrimSpace line = pre @ p @ post)))"
proof -
  have r: "r = TrimSpace (Join (filter keepLine (Split out newline)) [newline])"
    using assms by (simp add: parseGeminiOutput_eq split: if_splits)
  have "\<forall>l\<in>set (filter keepLine (Split out newline)). \<not> allSpace l"
    by (simp add: keepLine_not_allSpace)
  then have "TrimSpace (Join (filter keepLine (Split out newline)) [newline])
      = Join (trimOuter (filter keepLine (Split out newline))) [newline]"
    by (rule TrimSpace_Join)
  with r show ?thesis using keepLine_iff by blast
qed

text \<open>
  An output with a status line, an indented first content line and trailing white space
  after the last one: the indentation of the second content line is kept.
\<close>

theorem parseGeminiOutput_surviving_lines_witness:
  "parseGeminiOutput NewClient
     (''Loading cached credentials'' @ [newline] @ ''  Hello, world!'' @ [newline]
        @ ''    This is a response.  '' @ [newline])
     = Inr (''Hello, world!'' @ [newline] @ ''    This is a response.'')
   \<and> ''Hello, world!'' @ [newline] @ ''    This is a response.''
     = Join (trimOuter (filter keepLine (Split
         (''Loading cached credentials'' @ [newline] @ ''  Hello, world!'' @ [newline]
            @ ''    This is a response.  '' @ [newline]) newline))) [newline]"
proof -
  have h: "parseGeminiOutput NewClient
     (''Loading cached credentials'' @ [newline] @ ''  Hello, world!'' @ [newline]
        @ ''    This is a response.  '' @ [newline])
     = Inr (''Hello, world!'' @ [newline] @ ''    This is a response.'')"
    by code_simp
  from parseGeminiOutput_surviving_lines [OF h] h show ?thesis by blast
qed

text \<open>
  C1 as stated fails: the only surviving line of this output is \<open>''  indented answer''\<close>,
  and the result is \<open>''indented answer''\<close>, without the two leading spaces.
\<close>

theorem parseGeminiOutput_verbatim_counterexample:
  "parseGeminiOutput NewClient (''Loaded cached credentials.'' @ [newline] @ ''  indented answer'')
     = Inr ''indented answer''
   \<and> filter keepLine
       (Split (''Loaded cached credentials.'' @ [newline] @ ''  indented answer'') newline)
     = [''  indented answer'']
   \<and> Join (filter keepLine
       (Split (''Loaded cached credentials.'' @ [newline] @ ''  indented answer'') newline))
       [newline]
     \<noteq> ''indented answer''"
  by code_simp



text \<open>
  C3. For every client and every answer of the operating system, \<open>Execute\<close> and
  \<open>ExecuteWithTimeout\<close> on the empty prompt return the empty-prompt error with no effect
  at all: no current directory asked for, no executable looked up, no process started.
\<close>

theorem Execute_empty_prompt:
  "Execute os c [] = (Inl (Errorf ''prompt cannot be empty''), [], c)
   \<and> ExecuteWithTimeout os c [] t = (Inl (Errorf ''prompt cannot be empty''), [], c)"
  by (simp add: Execute_def ExecuteWithTimeout_def executeWith_def ErrEmptyPrompt_def)

text \<open>The default client, where the executable would be found and would answer.\<close>

theorem Execute_empty_prompt_witness:
  "Execute
     \<lparr>getwd = Inr ''/home/user'', lookPath = (\<lambda>name. Inr (''/usr/bin/'' @ name)),
      getenv = (\<lambda>name. []), userCurrent = Inr ''/home/user'',
      child = (\<lambda>path args dir t. Exits None ''Hello'' []),
      formatDuration = (\<lambda>t. ''30s'')\<rparr>
     NewClient []
   = (Inl (Errorf ''prompt cannot be empty''), [], NewClient)"
  using Execute_empty_prompt
    [of "\<lparr>getwd = Inr ''/home/user'', lookPath = (\<lambda>name. Inr (''/usr/bin/'' @ name)),
          getenv = (\<lambda>name. []), userCurrent = Inr ''/home/user'',
          child = (\<lambda>path args dir t. Exits None ''Hello'' []),
          formatDuration = (\<lambda>t. ''30s'')\<rparr>" NewClient]
  by simp

text \<open>
  C4. For every prompt and every model string given at construction, the command built is
  the five-element list \<open>gemini, -m, model, -p, prompt\<close>, in which an empty configured
  model is replaced by the default model \<open>gemini-2.5-flash\<close> and the last element is the
  prompt itself.
\<close>

theorem buildGeminiCommandWithModel_shape:
  "buildGeminiCommandWithModel (NewClientWithConfig config) prompt =
     [''gemini'', ''-m'',
      (if Model config = [] then ''gemini-2.5-flash'' else Model config),
      ''-p'', prompt]
   \<and> length (buildGeminiCommandWithModel (NewClientWithConfig config) prompt) = 5
   \<and> last (buildGeminiCommandWithModel (NewClientWithConfig config) prompt) = prompt
   \<and> buildGeminiCommandWithModel (NewClientWithConfig config) prompt ! 2 \<noteq> []"
  by (simp add: buildGeminiCommandWithModel_def model_NewClientWithConfig
      GeminiCommand_def GeminiModelFlag_def GeminiPromptFlag_def DefaultModel_def)

text \<open>A configuration that names no model.\<close>

theorem buildGeminiCommandWithModel_shape_witness:
  "buildGeminiCommandWithModel
     (NewClientWithConfig \<lparr>Logger = None, Timeout = 0, Model = [], WorkingDirectory = []\<rparr>)
     ''test prompt''
   = [''gemini'', ''-m'', ''gemini-2.5-flash'', ''-p'', ''test prompt'']"
  using buildGeminiCommandWithModel_shape
    [of "\<lparr>Logger = None, Timeout = 0, Model = [], WorkingDirectory = []\<rparr>" "''test prompt''"]
  by simp

text \<open>
  C5. For every prompt and non-empty base directory, \<open>resolveRelativePaths\<close> is the pass
  from left to right that replaces each path-like token by the normalized join of the
  base directory and the token, leaves a token that is an absolute path as it is, and
  copies all other text.
\<close>

theorem resolveRelativePaths_tokens:
  assumes "baseDir \<noteq> []"
  shows "resolveRelativePaths c prompt baseDir = Inr (replaceTokens (resolveToken baseDir) prompt)"
proof -
  have "replaceTokens (\<lambda>t. if IsAbs t then t else Clean (filepathJoin [baseDir, t])) prompt
      = replaceTokens (resolveToken baseDir) prompt"
    by (rule replaceTokens_cong)
      (simp add: resolveToken_def filepathJoin_base [OF assms] Clean_idem)
  then show ?thesis by (simp add: resolveRelativePaths_eq)
qed

text \<open>The prompt of the test \<open>MixedPathTypes\<close>: a relative and an absolute path.\<close>

theorem resolveRelativePaths_tokens_witness:
  "resolveRelativePaths NewClient ''Compare ./local.txt with /absolute/remote.txt'' ''/project''
     = Inr ''Compare /project/local.txt with /absolute/remote.txt''
   \<and> replaceTokens (resolveToken ''/project'') ''Compare ./local.txt with /absolute/remote.txt''
     = ''Compare /project/local.txt with /absolute/remote.txt''"
proof -
  have h: "resolveRelativePaths NewClient ''Compare ./local.txt with /absolute/remote.txt''
      ''/project'' = Inr ''Compare /project/local.txt with /absolute/remote.txt''"
    by code_simp
  have "''/project'' \<noteq> []" by simp
  from resolveRelativePaths_tokens [OF this, of NewClient
      "''Compare ./local.txt with /absolute/remote.txt''"] h
  show ?thesis by simp
qed



text \<open>
  C8. The client built by \<open>NewClientWithConfig\<close>, and the one built by \<open>NewClient\<close>, has a
  timeout greater than zero: a supplied timeout that is zero or negative is replaced by
  the default of 30 seconds. \<open>Execute\<close> and \<open>ExecuteWithTimeout\<close> leave the timeout of
  the client as it is.
\<close>

theorem NewClient_timeout_positive:
  "0 < sint (timeout (NewClientWithConfig config))
   \<and> 0 < sint (timeout NewClient)
   \<and> timeout (NewClientWithConfig config)
       = (if 0 < sint (Timeout config) then Timeout config else 30 * 1000000000)
   \<and> timeout (snd (snd (Execute os c prompt))) = timeout c
   \<and> timeout (snd (snd (ExecuteWithTimeout os c prompt t))) = timeout c"
  by (simp add: timeout_NewClientWithConfig NewClient_def DefaultTimeout_def Second_def
      Execute_def ExecuteWithTimeout_def executeWith_client)

text \<open>A configuration with a negative timeout.\<close>

theorem NewClient_timeout_positive_witness:
  "timeout (NewClientWithConfig
      \<lparr>Logger = None, Timeout = - 5, Model = [], WorkingDirectory = []\<rparr>) = 30000000000
   \<and> (0 :: int) < sint (30000000000 :: 64 word)"
  using NewClient_timeout_positive
    [of "\<lparr>Logger = None, Timeout = - 5, Model = [], WorkingDirectory = []\<rparr>"]
  by simp

text \<open>
  C9. \<open>resolveRelativePaths\<close> returns no error, whatever the prompt and the base
  directory. With the empty base directory a relative token is still joined and
  normalized: it becomes the normalized join of \<open>.\<close> and the token.
\<close>

theorem resolveRelativePaths_never_fails:
  "(\<exists>r. resolveRelativePaths c prompt baseDir = Inr r)
   \<and> resolveRelativePaths c prompt [] = Inr (replaceTokens (resolveToken ''.'') prompt)"
proof -
  have "replaceTokens (\<lambda>t. if IsAbs t then t else Clean (filepathJoin [[], t])) prompt
      = replaceTokens (resolveToken ''.'') prompt"
    by (rule replaceTokens_cong)
      (use Clean_dot_slash in \<open>simp add: resolveToken_def filepathJoin_empty_base Clean_idem\<close>)
  then show ?thesis by (simp add: resolveRelativePaths_eq)
qed

text \<open>The call of the test \<open>TestResolveRelativePathsError\<close>.\<close>

theorem resolveRelativePaths_never_fails_witness:
  "resolveRelativePaths NewClient ''./test.txt'' [] = Inr ''test.txt''
   \<and> replaceTokens (resolveToken ''.'') ''./test.txt'' = ''test.txt''"
proof -
  have h: "resolveRelativePaths NewClient ''./test.txt'' [] = Inr ''test.txt''"
    by code_simp
  from resolveRelativePaths_never_fails [of NewClient "''./test.txt''"] h
  show ?thesis by simp
qed

text \<open>
  C10. Sanitization is idempotent: when \<open>ParseGeminiOutput\<close> succeeds with a result, it
  succeeds on that result and returns it unchanged.
\<close>

theorem ParseGeminiOutput_idempotent:
  assumes "ParseGeminiOutput out = Inr r"
  shows "ParseGeminiOutput r = Inr r"
proof -
  from assms have ne: "out \<noteq> []" and r: "r = filterGeminiOutput NewClient (TrimSpace out)"
    and rne: "r \<noteq> []"
    by (auto simp: ParseGeminiOutput_def parseGeminiOutput_def Let_def split: if_splits)
  have "filterGeminiOutput NewClient (TrimSpace r) = filterGeminiOutput NewClient r"
    by (rule filterGeminiOutput_TrimSpace)
  also have "\<dots> = r" unfolding r by (rule filterGeminiOutput_idem)
  finally show ?thesis
    using rne by (simp add: ParseGeminiOutput_def parseGeminiOutput_def)
qed

text \<open>A status line, then two content lines with white space around them.\<close>

theorem ParseGeminiOutput_idempotent_witness:
  "ParseGeminiOutput (''Authenticating'' @ [newline] @ ''  Hello  '' @ [newline] @ '' there '')
     = Inr (''Hello  '' @ [newline] @ '' there'')
   \<and> ParseGeminiOutput (''Hello  '' @ [newline] @ '' there'')
     = Inr (''Hello  '' @ [newline] @ '' there'')"
proof -
  have h: "ParseGeminiOutput (''Authenticating'' @ [newline] @ ''  Hello  '' @ [newline] @ '' there '')
     = Inr (''Hello  '' @ [newline] @ '' there'')"
    by code_simp
  from ParseGeminiOutput_idempotent [OF h] h show ?thesis by blast
qed

end
